theory Spec2Isabelle
  imports Main "HOL-Library.Char_ord" "HOL-Library.List_Lexorder" "HOL-Library.AList"
begin

section \<open>The key-value stores of package mg\<close>

text \<open>
  Values and keys are Go \<^verbatim>\<open>interface{}\<close> values. A caller's value is modelled by
  \<open>'v option\<close>, with \<open>None\<close> for \<^verbatim>\<open>nil\<close>; keys range over a type \<open>'k\<close> of hashable
  values. The type \<^verbatim>\<open>kvRef\<close> is unexported, so the only \<^verbatim>\<open>*kvRef\<close> values a table
  ever holds are the ones \<^verbatim>\<open>KVMap.ref\<close> stores there: a table cell is either a
  caller's value or a pointer to a box.

  Objects that the code shares through pointers live in an explicit memory: the
  \<^verbatim>\<open>KVMap\<close> objects and the \<^verbatim>\<open>kvRef\<close> boxes, each under an address. The
  functions of this section describe one goroutine running a method from call to
  return. Every method releases each mutex it acquires before it returns, so the
  mutexes are free at every call boundary and are not part of this memory; they are
  part of the interleaving model further down.
\<close>

type_synonym addr = nat

datatype 'v cell = Raw "'v option" | KvRefPtr addr

record 'v kvRef =
  val :: "'v option"

record ('k, 'v) KVMap =
  vals :: "('k \<rightharpoonup> 'v cell) option"

record ('k, 'v) mem =
  maps :: "addr \<Rightarrow> ('k, 'v) KVMap"
  refs :: "addr \<Rightarrow> 'v kvRef"
  nrefs :: addr

text \<open>The zero value \<^verbatim>\<open>KVMap{}\<close>: the table is a nil map.\<close>

definition zeroKVMap :: "('k, 'v) KVMap" where
  "zeroKVMap = \<lparr>vals = None\<rparr>"

text \<open>\<^verbatim>\<open>m.vals[k]\<close>: reading a nil map or a missing key gives the nil interface.\<close>

definition index :: "('k, 'v) KVMap \<Rightarrow> 'k \<Rightarrow> 'v cell" where
  "index m k =
     (case vals m of
        None \<Rightarrow> Raw None
      | Some t \<Rightarrow> (case t k of None \<Rightarrow> Raw None | Some c \<Rightarrow> c))"

definition put :: "('k, 'v) KVMap \<Rightarrow> 'k \<Rightarrow> 'v cell \<Rightarrow> ('k, 'v) KVMap" where
  "put m k c =
     (let t = (case vals m of None \<Rightarrow> Map.empty | Some t \<Rightarrow> t)
      in m\<lparr>vals := Some (t(k \<mapsto> c))\<rparr>)"

text \<open>\<^verbatim>\<open>delete(m.vals, k)\<close>: a no-op on a nil map.\<close>

definition delete :: "('k, 'v) KVMap \<Rightarrow> 'k \<Rightarrow> ('k, 'v) KVMap" where
  "delete m k = m\<lparr>vals := map_option (\<lambda>t. t(k := None)) (vals m)\<rparr>"

definition unref :: "('k, 'v) mem \<Rightarrow> 'v cell \<Rightarrow> 'v option" where
  "unref h c = (case c of Raw v \<Rightarrow> v | KvRefPtr r \<Rightarrow> val (refs h r))"

text \<open>The receiver of a method is a \<^verbatim>\<open>*KVMap\<close>: \<open>None\<close> is the nil pointer.\<close>

definition KVMap_Put :: "addr option \<Rightarrow> 'k \<Rightarrow> 'v option \<Rightarrow> ('k, 'v) mem \<Rightarrow> ('k, 'v) mem" where
  "KVMap_Put p k v h =
     (case p of
        None \<Rightarrow> h
      | Some a \<Rightarrow> h\<lparr>maps := (maps h)(a := put (maps h a) k (Raw v))\<rparr>)"

definition KVMap_Get :: "addr option \<Rightarrow> 'k \<Rightarrow> ('k, 'v) mem \<Rightarrow> 'v option" where
  "KVMap_Get p k h =
     (case p of
        None \<Rightarrow> None
      | Some a \<Rightarrow> unref h (index (maps h a) k))"

text \<open>
  \<^verbatim>\<open>m.ref(k)\<close> for the map at address \<open>a\<close>: the box already in the table, or a new
  box around the cell's value, stored in the table.
\<close>

definition ref :: "addr \<Rightarrow> 'k \<Rightarrow> ('k, 'v) mem \<Rightarrow> addr \<times> ('k, 'v) mem" where
  "ref a k h =
     (case index (maps h a) k of
        KvRefPtr r \<Rightarrow> (r, h)
      | Raw v \<Rightarrow>
          (let r = nrefs h;
               h1 = h\<lparr>refs := (refs h)(r := \<lparr>val = v\<rparr>), nrefs := Suc r\<rparr>
           in (r, h1\<lparr>maps := (maps h1)(a := put (maps h1 a) k (KvRefPtr r))\<rparr>)))"

text \<open>
  \<^verbatim>\<open>Ref\<close> returns the value, whether it called the initializer, and the memory.
  The initializer is a function value the caller supplies; its result is what one
  call of it returns. It is taken to return: a nil function value, or one that
  panics, is the caller's fault and not part of the model.
\<close>

definition KVMap_Ref ::
  "addr option \<Rightarrow> 'k \<Rightarrow> (unit \<Rightarrow> 'v option) \<Rightarrow> ('k, 'v) mem \<Rightarrow> 'v option \<times> bool \<times> ('k, 'v) mem" where
  "KVMap_Ref p k new h =
     (case p of
        None \<Rightarrow> (new (), True, h)
      | Some a \<Rightarrow>
          (let (r, h1) = ref a k h
           in if val (refs h1 r) = None
              then (let v = new () in (v, True, h1\<lparr>refs := (refs h1)(r := \<lparr>val = v\<rparr>)\<rparr>))
              else (val (refs h1 r), False, h1)))"

definition KVMap_Del :: "addr option \<Rightarrow> 'k \<Rightarrow> ('k, 'v) mem \<Rightarrow> ('k, 'v) mem" where
  "KVMap_Del p k h =
     (case p of
        None \<Rightarrow> h
      | Some a \<Rightarrow> h\<lparr>maps := (maps h)(a := delete (maps h a) k)\<rparr>)"

definition KVMap_Clear :: "addr option \<Rightarrow> ('k, 'v) mem \<Rightarrow> ('k, 'v) mem" where
  "KVMap_Clear p h =
     (case p of
        None \<Rightarrow> h
      | Some a \<Rightarrow> h\<lparr>maps := (maps h)(a := (maps h a)\<lparr>vals := None\<rparr>)\<rparr>)"

text \<open>\<^verbatim>\<open>Values\<close> returns a new map (\<open>None\<close> is the nil map) of the unwrapped non-nil values.\<close>

definition KVMap_Values :: "addr option \<Rightarrow> ('k, 'v) mem \<Rightarrow> ('k \<rightharpoonup> 'v) option" where
  "KVMap_Values p h =
     (case p of
        None \<Rightarrow> None
      | Some a \<Rightarrow>
          Some (\<lambda>k. case vals (maps h a) of
                      None \<Rightarrow> None
                    | Some t \<Rightarrow> (case t k of None \<Rightarrow> None | Some c \<Rightarrow> unref h c)))"

text \<open>
  A \<^verbatim>\<open>KVStore\<close> interface value: the nil interface, a \<^verbatim>\<open>*KVMap\<close> (possibly a nil
  pointer, which is not the nil interface), or a \<^verbatim>\<open>KVStores\<close> list.
\<close>

datatype kvstore = NilKVStore | KVMapPtr "addr option" | KVStoresVal "kvstore list"

fun KVStores_Put :: "kvstore list \<Rightarrow> 'k \<Rightarrow> 'v option \<Rightarrow> ('k, 'v) mem \<Rightarrow> ('k, 'v) mem" where
  "KVStores_Put [] k v h = h"
| "KVStores_Put (NilKVStore # kvl) k v h = KVStores_Put kvl k v h"
| "KVStores_Put (KVMapPtr p # kvl) k v h = KVStores_Put kvl k v (KVMap_Put p k v h)"
| "KVStores_Put (KVStoresVal l # kvl) k v h = KVStores_Put kvl k v (KVStores_Put l k v h)"

fun KVStores_Get :: "kvstore list \<Rightarrow> 'k \<Rightarrow> ('k, 'v) mem \<Rightarrow> 'v option" where
  "KVStores_Get [] k h = None"
| "KVStores_Get (NilKVStore # kvl) k h = KVStores_Get kvl k h"
| "KVStores_Get (KVMapPtr p # kvl) k h =
     (case KVMap_Get p k h of Some v \<Rightarrow> Some v | None \<Rightarrow> KVStores_Get kvl k h)"
| "KVStores_Get (KVStoresVal l # kvl) k h =
     (case KVStores_Get l k h of Some v \<Rightarrow> Some v | None \<Rightarrow> KVStores_Get kvl k h)"

fun KVStores_Del :: "kvstore list \<Rightarrow> 'k \<Rightarrow> ('k, 'v) mem \<Rightarrow> ('k, 'v) mem" where
  "KVStores_Del [] k h = h"
| "KVStores_Del (NilKVStore # kvl) k h = KVStores_Del kvl k h"
| "KVStores_Del (KVMapPtr p # kvl) k h = KVStores_Del kvl k (KVMap_Del p k h)"
| "KVStores_Del (KVStoresVal l # kvl) k h = KVStores_Del kvl k (KVStores_Del l k h)"

text \<open>
  The non-nil \<^verbatim>\<open>*KVMap\<close> pointers of a list, nested lists included, in the order in
  which \<^verbatim>\<open>Get\<close> consults them.
\<close>

fun KVMaps_of :: "kvstore list \<Rightarrow> addr list" where
  "KVMaps_of [] = []"
| "KVMaps_of (NilKVStore # kvl) = KVMaps_of kvl"
| "KVMaps_of (KVMapPtr None # kvl) = KVMaps_of kvl"
| "KVMaps_of (KVMapPtr (Some a) # kvl) = a # KVMaps_of kvl"
| "KVMaps_of (KVStoresVal l # kvl) = KVMaps_of l @ KVMaps_of kvl"

text \<open>The first non-nil value of a sequence of lookups, nil when there is none.\<close>

fun first_hit :: "'a option list \<Rightarrow> 'a option" where
  "first_hit [] = None"
| "first_hit (None # xs) = first_hit xs"
| "first_hit (Some v # xs) = Some v"

text \<open>A memory in which every \<^verbatim>\<open>KVMap\<close> is the zero value and no box is allocated.\<close>

definition zero_mem :: "('k, 'v) mem" where
  "zero_mem = \<lparr>maps = (\<lambda>_. zeroKVMap), refs = (\<lambda>_. \<lparr>val = None\<rparr>), nrefs = 0\<rparr>"

section \<open>Concurrent callers of \<^verbatim>\<open>KVMap.Ref\<close>\<close>

text \<open>
  \<open>N\<close> goroutines call \<^verbatim>\<open>m.Ref(k, new)\<close> on one non-nil \<^verbatim>\<open>KVMap\<close>. A goroutine
  is at one of the program points of \<^verbatim>\<open>Ref\<close> (with \<^verbatim>\<open>ref\<close> and \<^verbatim>\<open>put\<close> inlined); a
  step runs the statement at that point. \<^verbatim>\<open>Lock\<close> is enabled only while the mutex
  is free. Here a box carries its mutex. The initializer may be stateful: \<open>new i\<close> is
  what its call returns after \<open>i\<close> earlier calls.
\<close>

datatype pc =
    MuLock      \<comment> \<open>\<^verbatim>\<open>m.mu.Lock()\<close>\<close>
  | RefLoad     \<comment> \<open>\<^verbatim>\<open>v := m.vals[k]; ref, ok := v.(*kvRef)\<close>\<close>
  | RefNew      \<comment> \<open>\<^verbatim>\<open>ref = &kvRef{val: v}; m.put(k, ref)\<close>\<close>
  | MuUnlock    \<comment> \<open>\<^verbatim>\<open>m.mu.Unlock()\<close>\<close>
  | RefLock     \<comment> \<open>\<^verbatim>\<open>ref.Lock()\<close>\<close>
  | TestVal     \<comment> \<open>\<^verbatim>\<open>if ref.val == nil\<close>\<close>
  | CallNew     \<comment> \<open>\<^verbatim>\<open>ref.val = new()\<close>\<close>
  | ReadVal     \<comment> \<open>\<^verbatim>\<open>return ref.val\<close>: the result is evaluated\<close>
  | RefUnlock   \<comment> \<open>the deferred \<^verbatim>\<open>ref.Unlock()\<close>\<close>
  | Returned

record 'v goroutine =
  at :: pc
  loc_v :: "'v option"
  loc_ref :: addr
  ret :: "'v option"

record 'v lockedRef =
  locked :: bool
  lval :: "'v option"

record ('k, 'v) shared =
  kvmap :: "('k, 'v) KVMap"
  mu :: bool
  boxes :: "addr \<Rightarrow> 'v lockedRef"
  nboxes :: addr
  calls :: nat
  gor :: "nat \<Rightarrow> 'v goroutine"

definition fresh :: "('k, 'v) shared" where
  "fresh =
     \<lparr>kvmap = zeroKVMap, mu = False,
      boxes = (\<lambda>_. \<lparr>locked = False, lval = None\<rparr>), nboxes = 0, calls = 0,
      gor = (\<lambda>_. \<lparr>at = MuLock, loc_v = None, loc_ref = 0, ret = None\<rparr>)\<rparr>"

definition goto :: "nat \<Rightarrow> pc \<Rightarrow> ('k, 'v) shared \<Rightarrow> ('k, 'v) shared" where
  "goto t l s = s\<lparr>gor := (gor s)(t := (gor s t)\<lparr>at := l\<rparr>)\<rparr>"

text \<open>One step of goroutine \<open>t\<close>; \<open>None\<close> when it is blocked on a mutex or has returned.\<close>

definition step ::
  "'k \<Rightarrow> (nat \<Rightarrow> 'v option) \<Rightarrow> nat \<Rightarrow> ('k, 'v) shared \<Rightarrow> ('k, 'v) shared option" where
  "step k new t s =
     (let g = gor s t; r = loc_ref g in
      case at g of
        MuLock \<Rightarrow> if mu s then None else Some (goto t RefLoad (s\<lparr>mu := True\<rparr>))
      | RefLoad \<Rightarrow>
          (case index (kvmap s) k of
             KvRefPtr a \<Rightarrow> Some (s\<lparr>gor := (gor s)(t := g\<lparr>at := MuUnlock, loc_ref := a\<rparr>)\<rparr>)
           | Raw v \<Rightarrow> Some (s\<lparr>gor := (gor s)(t := g\<lparr>at := RefNew, loc_v := v\<rparr>)\<rparr>))
      | RefNew \<Rightarrow>
          (let a = nboxes s in
           Some (s\<lparr>boxes := (boxes s)(a := \<lparr>locked = False, lval = loc_v g\<rparr>),
                   nboxes := Suc a,
                   kvmap := put (kvmap s) k (KvRefPtr a),
                   gor := (gor s)(t := g\<lparr>at := MuUnlock, loc_ref := a\<rparr>)\<rparr>))
      | MuUnlock \<Rightarrow> Some (goto t RefLock (s\<lparr>mu := False\<rparr>))
      | RefLock \<Rightarrow>
          if locked (boxes s r) then None
          else Some (goto t TestVal (s\<lparr>boxes := (boxes s)(r := (boxes s r)\<lparr>locked := True\<rparr>)\<rparr>))
      | TestVal \<Rightarrow> Some (goto t (if lval (boxes s r) = None then CallNew else ReadVal) s)
      | CallNew \<Rightarrow>
          Some (goto t ReadVal
                  (s\<lparr>boxes := (boxes s)(r := (boxes s r)\<lparr>lval := new (calls s)\<rparr>),
                     calls := Suc (calls s)\<rparr>))
      | ReadVal \<Rightarrow> Some (s\<lparr>gor := (gor s)(t := g\<lparr>at := RefUnlock, ret := lval (boxes s r)\<rparr>)\<rparr>)
      | RefUnlock \<Rightarrow>
          Some (goto t Returned (s\<lparr>boxes := (boxes s)(r := (boxes s r)\<lparr>locked := False\<rparr>)\<rparr>))
      | Returned \<Rightarrow> None)"

text \<open>
  A schedule names the goroutine that is given the processor at each moment. A
  goroutine that cannot step (blocked, returned, or not one of the \<open>N\<close>) leaves the
  state as it is.
\<close>

fun exec ::
  "nat \<Rightarrow> 'k \<Rightarrow> (nat \<Rightarrow> 'v option) \<Rightarrow> nat list \<Rightarrow> ('k, 'v) shared \<Rightarrow> ('k, 'v) shared" where
  "exec N k new [] s = s"
| "exec N k new (t # ts) s =
     exec N k new ts
       (case (if t < N then step k new t s else None) of None \<Rightarrow> s | Some s' \<Rightarrow> s')"

text \<open>The number of statements goroutines still have to run: it bounds every execution.\<close>

fun todo :: "pc \<Rightarrow> nat" where
  "todo MuLock = 9"
| "todo RefLoad = 8"
| "todo RefNew = 7"
| "todo MuUnlock = 6"
| "todo RefLock = 5"
| "todo TestVal = 4"
| "todo CallNew = 3"
| "todo ReadVal = 2"
| "todo RefUnlock = 1"
| "todo Returned = 0"

definition remaining :: "nat \<Rightarrow> ('k, 'v) shared \<Rightarrow> nat" where
  "remaining N s = (\<Sum>t<N. todo (at (gor s t)))"

text \<open>Two initializers: one that returns nil, one that returns a value.\<close>

definition nil_init :: "nat \<Rightarrow> nat option" where
  "nil_init i = None"

definition seven_init :: "nat \<Rightarrow> nat option" where
  "seven_init i = Some 7"

subsection \<open>The invariant of the interleavings\<close>

text \<open>
  A mutex and the program points between its \<^verbatim>\<open>Lock\<close> and \<^verbatim>\<open>Unlock\<close>: the mutex is
  held exactly when some goroutine is at such a point, and at most one is.
\<close>

definition lock_ok :: "('l \<Rightarrow> bool) \<Rightarrow> nat \<Rightarrow> bool \<Rightarrow> (nat \<Rightarrow> 'l) \<Rightarrow> bool" where
  "lock_ok P N b l \<longleftrightarrow>
     (b \<longleftrightarrow> (\<exists>t<N. P (l t))) \<and> (\<forall>t<N. \<forall>u<N. P (l t) \<and> P (l u) \<longrightarrow> t = u)"

fun in_mu :: "pc \<Rightarrow> bool" where
  "in_mu RefLoad = True"
| "in_mu RefNew = True"
| "in_mu MuUnlock = True"
| "in_mu _ = False"

fun in_box :: "pc \<Rightarrow> bool" where
  "in_box TestVal = True"
| "in_box CallNew = True"
| "in_box ReadVal = True"
| "in_box RefUnlock = True"
| "in_box _ = False"

fun has_ref :: "pc \<Rightarrow> bool" where
  "has_ref MuLock = False"
| "has_ref RefLoad = False"
| "has_ref RefNew = False"
| "has_ref _ = True"

definition pcs :: "('k, 'v) shared \<Rightarrow> nat \<Rightarrow> pc" where
  "pcs s t = at (gor s t)"

text \<open>What a goroutine knows at its program point, on a store that was fresh.\<close>

definition local_inv :: "(nat \<Rightarrow> 'v option) \<Rightarrow> ('k, 'v) shared \<Rightarrow> 'v goroutine \<Rightarrow> bool" where
  "local_inv new s g \<longleftrightarrow>
     (at g = RefNew \<longrightarrow> nboxes s = 0 \<and> loc_v g = None) \<and>
     (has_ref (at g) \<longrightarrow> nboxes s = 1 \<and> loc_ref g = 0) \<and>
     (at g = CallNew \<longrightarrow> lval (boxes s 0) = None) \<and>
     (at g = ReadVal \<longrightarrow> lval (boxes s 0) \<noteq> None) \<and>
     (at g = RefUnlock \<or> at g = Returned \<longrightarrow> ret g = new 0 \<and> lval (boxes s 0) = new 0)"

text \<open>The table holds nothing under \<open>k\<close>, or the one box, which is at address 0.\<close>

definition table_ok :: "'k \<Rightarrow> ('k, 'v) shared \<Rightarrow> bool" where
  "table_ok k s \<longleftrightarrow>
     (if nboxes s = 0 then index (kvmap s) k = Raw None \<and> lval (boxes s 0) = None
      else nboxes s = 1 \<and> index (kvmap s) k = KvRefPtr 0)"

text \<open>The box is empty and the initializer was not called, or it holds the result of its one call.\<close>

definition once :: "(nat \<Rightarrow> 'v option) \<Rightarrow> ('k, 'v) shared \<Rightarrow> bool" where
  "once new s \<longleftrightarrow>
     (case lval (boxes s 0) of None \<Rightarrow> calls s = 0 | Some v \<Rightarrow> calls s = 1 \<and> new 0 = Some v)"

definition inv :: "'k \<Rightarrow> (nat \<Rightarrow> 'v option) \<Rightarrow> nat \<Rightarrow> ('k, 'v) shared \<Rightarrow> bool" where
  "inv k new N s \<longleftrightarrow>
     lock_ok in_mu N (mu s) (pcs s) \<and>
     lock_ok in_box N (locked (boxes s 0)) (pcs s) \<and>
     table_ok k s \<and> once new s \<and>
     (\<forall>t<N. local_inv new s (gor s t))"

text \<open>
  The memory of the sequential methods, seen from the state of the goroutines: the map
  at address \<open>a\<close> is the one they share, and every box holds the same value.
\<close>

definition abstracts :: "addr \<Rightarrow> ('k, 'v) shared \<Rightarrow> ('k, 'v) mem \<Rightarrow> bool" where
  "abstracts a s h \<longleftrightarrow>
     maps h a = kvmap s \<and> (\<forall>r. val (refs h r) = lval (boxes s r)) \<and> nrefs h = nboxes s"

section \<open>The agent\<close>

subsection \<open>Codecs\<close>

text \<open>A \<^verbatim>\<open>codec.Handle\<close> interface value is a \<open>handle option\<close>: \<open>None\<close> is nil.\<close>

datatype handle = CborHandle | JsonHandle int bool | MsgpackHandle

definition DefaultCodec :: string where
  "DefaultCodec = ''json''"

definition at_key :: "(string \<times> handle option) list \<Rightarrow> string \<Rightarrow> handle option" where
  "at_key m k = (case map_of m k of None \<Rightarrow> None | Some h \<Rightarrow> h)"

text \<open>The map literal, then \<^verbatim>\<open>m[""] = m[DefaultCodec]\<close>, as a list of its entries.\<close>

definition codecHandles_entries :: "(string \<times> handle option) list" where
  "codecHandles_entries =
     (let m = [(''cbor'', Some CborHandle),
               (''json'', Some (JsonHandle 2 True)),
               (''msgpack'', Some MsgpackHandle)]
      in AList.update [] (at_key m DefaultCodec) m)"

definition codecHandles :: "string \<Rightarrow> handle option" where
  "codecHandles = at_key codecHandles_entries"

text \<open>
  \<^verbatim>\<open>CodecNames\<close> ranges over the map in an order Go does not fix, keeps the non-empty
  keys and sorts them. \<open>CodecNames_from\<close> is the computation on a given enumeration
  of the keys.
\<close>

definition CodecNames_from :: "string list \<Rightarrow> string list" where
  "CodecNames_from ks = sort (filter (\<lambda>k. k \<noteq> []) ks)"

definition CodecNames :: "string list" where
  "CodecNames = CodecNames_from (map fst codecHandles_entries)"

fun strings_Join :: "string list \<Rightarrow> string \<Rightarrow> string" where
  "strings_Join [] sep = []"
| "strings_Join [x] sep = x"
| "strings_Join (x # y # xs) sep = x @ sep @ strings_Join (y # xs) sep"

text \<open>
  \<^verbatim>\<open>i := len(CodecNames) - 1\<close>, then \<^verbatim>\<open>CodecNames[:i]\<close> and \<^verbatim>\<open>CodecNames[i]\<close>. Go
  would panic here on an empty list; \<^verbatim>\<open>CodecNames\<close> has three names, as is proved below.
\<close>

definition CodecNamesStr :: string where
  "CodecNamesStr =
     (let i = length CodecNames - 1
      in strings_Join (take i CodecNames) '', '' @ '' or '' @ CodecNames ! i)"

subsection \<open>Construction\<close>

record 's AgentConfig =
  AgentName :: string
  Codec :: string
  Stdin :: "'s option"
  Stdout :: "'s option"
  Stderr :: "'s option"

datatype 's stream = OsStdin | OsStdout | OsStderr | Configured 's

text \<open>
  The reducers of the store: the default ones (declared elsewhere in the package, so
  they are a parameter) and the status reducer \<^verbatim>\<open>NewAgent\<close> adds when \<^verbatim>\<open>MARGO_BUILD_ERROR\<close> is set.
\<close>

datatype 'r reducer = DefaultReducer 'r | AddStatus string

record 'r Store =
  before :: "'r reducer list"
  use :: "'r reducer list"
  after :: "'r reducer list"

datatype action = Started | Shutdown

text \<open>What the agent does to its collaborators, in the order it does it.\<close>

datatype 'rq event =
    LogPrintln string
  | Dispatch action
  | StoreReady
  | HandleReq 'rq
  | StdinClose
  | WgWait
  | StdoutClose
  | CloseDone

record ('s, 'r, 'rq) Agent =
  Name :: string
  stdin :: "'s stream"
  stdout :: "'s stream"
  stderr :: "'s stream"
  handle :: "handle option"
  store :: "'r Store"
  sd_closed :: bool
  trace :: "'rq event list"

definition quote :: string where
  "quote = [CHR 0x27]"

text \<open>
  \<^verbatim>\<open>NewAgent\<close>, given the default reducers and the value of \<^verbatim>\<open>MARGO_BUILD_ERROR\<close>
  (empty when unset). It returns the agent and the error, \<open>None\<close> for nil.
\<close>

definition NewAgent ::
  "'r list \<times> 'r list \<times> 'r list \<Rightarrow> string \<Rightarrow> 's AgentConfig
     \<Rightarrow> ('s, 'r, 'rq) Agent \<times> string option" where
  "NewAgent defaultReducers build_error cfg =
     (let (b, u, a) = defaultReducers;
          st = \<lparr>before = map DefaultReducer b, use = map DefaultReducer u,
                after = map DefaultReducer a\<rparr>;
          st = (if build_error \<noteq> [] then st\<lparr>use := use st @ [AddStatus build_error]\<rparr> else st);
          h = codecHandles (Codec cfg);
          ag = \<lparr>Name = AgentName cfg,
                stdin = (case Stdin cfg of None \<Rightarrow> OsStdin | Some f \<Rightarrow> Configured f),
                stdout = (case Stdout cfg of None \<Rightarrow> OsStdout | Some f \<Rightarrow> Configured f),
                stderr = (case Stderr cfg of None \<Rightarrow> OsStderr | Some f \<Rightarrow> Configured f),
                handle = h, store = st, sd_closed = False, trace = []\<rparr>
      in if h = None
         then (ag\<lparr>handle := codecHandles DefaultCodec\<rparr>,
               Some (''Invalid codec '' @ quote @ Codec cfg @ quote @ ''. Expected '' @ CodecNamesStr))
         else (ag, None))"

subsection \<open>The decode loop and shutdown\<close>

text \<open>
  An \<^verbatim>\<open>error\<close> value is \<^verbatim>\<open>io.EOF\<close> itself or another error with its text. The
  decoder is the sequence of the results of its \<^verbatim>\<open>Decode\<close> calls.
\<close>

datatype error = EOF | Err string

fun Error_text :: "error \<Rightarrow> string" where
  "Error_text EOF = ''EOF''"
| "Error_text (Err msg) = msg"

datatype 'rq decoded = Request 'rq | Failure error

definition handleReq :: "'rq \<Rightarrow> ('s, 'r, 'rq) Agent \<Rightarrow> ('s, 'r, 'rq) Agent" where
  "handleReq rq ag = ag\<lparr>trace := trace ag @ [HandleReq rq]\<rparr>"

text \<open>
  The \<^verbatim>\<open>for\<close> loop of \<^verbatim>\<open>communicate\<close>, at its \<open>i\<close>-th \<^verbatim>\<open>Decode\<close>. It runs for as long as
  requests arrive: the result is \<open>None\<close> when it never returns.
\<close>

partial_function (option) decode_loop ::
  "(nat \<Rightarrow> 'rq decoded) \<Rightarrow> nat \<Rightarrow> ('s, 'r, 'rq) Agent
     \<Rightarrow> (error option \<times> ('s, 'r, 'rq) Agent) option" where
  "decode_loop dec i ag =
     (case dec i of
        Failure err \<Rightarrow>
          if err = EOF then Some (None, ag)
          else Some (Some (Err (''ipc.decode: '' @ Error_text err)), ag)
      | Request rq \<Rightarrow> decode_loop dec (Suc i) (handleReq rq ag))"

definition communicate ::
  "(nat \<Rightarrow> 'rq decoded) \<Rightarrow> ('s, 'r, 'rq) Agent
     \<Rightarrow> (error option \<times> ('s, 'r, 'rq) Agent) option" where
  "communicate dec ag =
     decode_loop dec 0
       (ag\<lparr>trace := trace ag @ [LogPrintln ''started'', Dispatch Started, StoreReady]\<rparr>)"

text \<open>
  The deferred calls of \<^verbatim>\<open>shutdown\<close>, in the order of the \<^verbatim>\<open>defer\<close> statements. Each
  \<^verbatim>\<open>defer\<close> pushes its call on the stack of the function; at the return the stack is run
  from the top. A deferred call that panics does not stop the ones below it; the
  function then ends panicking. \<open>panics\<close> tells which calls panic.
\<close>

definition shutdown_defers :: "'rq event list" where
  "shutdown_defers = [CloseDone, StdoutClose, Dispatch Shutdown, WgWait, StdinClose]"

definition defer_all :: "'a list \<Rightarrow> 'a list" where
  "defer_all ds = foldl (\<lambda>stack d. d # stack) [] ds"

fun run_deferred ::
  "('rq event \<Rightarrow> bool) \<Rightarrow> 'rq event list \<Rightarrow> bool \<times> ('s, 'r, 'rq) Agent
     \<Rightarrow> bool \<times> ('s, 'r, 'rq) Agent" where
  "run_deferred panics [] (p, ag) = (p, ag)"
| "run_deferred panics (d # stack) (p, ag) =
     run_deferred panics stack (p \<or> panics d, ag\<lparr>trace := trace ag @ [d]\<rparr>)"

definition shutdown ::
  "('rq event \<Rightarrow> bool) \<Rightarrow> ('s, 'r, 'rq) Agent \<Rightarrow> bool \<times> ('s, 'r, 'rq) Agent" where
  "shutdown panics ag =
     (if sd_closed ag then (False, ag)
      else run_deferred panics (defer_all shutdown_defers) (False, ag\<lparr>sd_closed := True\<rparr>))"

text \<open>\<^verbatim>\<open>Run\<close> returns what \<^verbatim>\<open>communicate\<close> returned, or panics when the deferred shutdown did.\<close>

datatype 'a outcome = Return 'a | Panic

definition Run ::
  "('rq event \<Rightarrow> bool) \<Rightarrow> (nat \<Rightarrow> 'rq decoded) \<Rightarrow> ('s, 'r, 'rq) Agent
     \<Rightarrow> (error option outcome \<times> ('s, 'r, 'rq) Agent) option" where
  "Run panics dec ag =
     (case communicate dec ag of
        None \<Rightarrow> None
      | Some (err, ag1) \<Rightarrow>
          (let (p, ag2) = shutdown panics ag1
           in Some (if p then Panic else Return err, ag2)))"

text \<open>
  The \<open>n\<close>-th \<^verbatim>\<open>Decode\<close> is the first that fails, and it fails with \<open>err\<close>; the requests
  decoded before it.
\<close>

definition is_request :: "'rq decoded \<Rightarrow> bool" where
  "is_request d = (case d of Request _ \<Rightarrow> True | Failure _ \<Rightarrow> False)"

definition first_failure :: "(nat \<Rightarrow> 'rq decoded) \<Rightarrow> nat \<Rightarrow> error \<Rightarrow> bool" where
  "first_failure dec n err \<longleftrightarrow> (\<forall>i\<in>{..<n}. is_request (dec i)) \<and> dec n = Failure err"

definition requests :: "(nat \<Rightarrow> 'rq decoded) \<Rightarrow> nat \<Rightarrow> nat \<Rightarrow> 'rq list" where
  "requests dec i n =
     concat (map (\<lambda>j. case dec j of Request rq \<Rightarrow> [rq] | Failure _ \<Rightarrow> []) [i..<n])"

text \<open>Two input streams: two requests and then the end of the stream, or a broken message.\<close>

definition ends_after_two :: "nat \<Rightarrow> string decoded" where
  "ends_after_two i = (if i < 2 then Request ''rq'' else Failure EOF)"

definition breaks_after_two :: "nat \<Rightarrow> string decoded" where
  "breaks_after_two i = (if i < 2 then Request ''rq'' else Failure (Err ''unexpected EOF''))"

text \<open>An agent as \<^verbatim>\<open>NewAgent\<close> builds it, and an environment in which no call panics.\<close>

definition json_agent :: "(unit, unit, string) Agent" where
  "json_agent =
     \<lparr>Name = ''margo'', stdin = OsStdin, stdout = OsStdout, stderr = OsStderr,
      handle = Some (JsonHandle 2 True), store = \<lparr>before = [], use = [], after = []\<rparr>,
      sd_closed = False, trace = []\<rparr>"

definition no_panic :: "'rq event \<Rightarrow> bool" where
  "no_panic d = False"

subsection \<open>Concurrent callers of \<^verbatim>\<open>shutdown\<close>\<close>

text \<open>
  Goroutines that call \<^verbatim>\<open>ag.shutdown()\<close> at the same time. A goroutine is at a
  statement of \<^verbatim>\<open>shutdown\<close> or is running its stack of deferred calls, below which lies
  the deferred \<^verbatim>\<open>sd.mu.Unlock()\<close>.
\<close>

datatype 'rq sd_pc =
    SdLock                    \<comment> \<open>\<^verbatim>\<open>sd.mu.Lock()\<close>\<close>
  | SdTest                    \<comment> \<open>\<^verbatim>\<open>if sd.closed { return }\<close>\<close>
  | SdMark                    \<comment> \<open>\<^verbatim>\<open>sd.closed = true\<close> and the five \<^verbatim>\<open>defer\<close> statements\<close>
  | SdDeferred "'rq event list" \<comment> \<open>the deferred calls still to run, top first\<close>
  | SdUnlock                  \<comment> \<open>the deferred \<^verbatim>\<open>sd.mu.Unlock()\<close>\<close>
  | SdReturned

record 'rq sd_goroutine =
  sd_at :: "'rq sd_pc"
  panicking :: bool

record 'rq sd_shared =
  sd_mu :: bool
  closed :: bool
  ran :: "'rq event list"
  sd_gor :: "nat \<Rightarrow> 'rq sd_goroutine"

definition sd_init :: "'rq sd_shared" where
  "sd_init =
     \<lparr>sd_mu = False, closed = False, ran = [],
      sd_gor = (\<lambda>_. \<lparr>sd_at = SdLock, panicking = False\<rparr>)\<rparr>"

definition sd_goto :: "nat \<Rightarrow> 'rq sd_pc \<Rightarrow> 'rq sd_shared \<Rightarrow> 'rq sd_shared" where
  "sd_goto t l s = s\<lparr>sd_gor := (sd_gor s)(t := (sd_gor s t)\<lparr>sd_at := l\<rparr>)\<rparr>"

definition sd_step ::
  "('rq event \<Rightarrow> bool) \<Rightarrow> nat \<Rightarrow> 'rq sd_shared \<Rightarrow> 'rq sd_shared option" where
  "sd_step panics t s =
     (let g = sd_gor s t in
      case sd_at g of
        SdLock \<Rightarrow> if sd_mu s then None else Some (sd_goto t SdTest (s\<lparr>sd_mu := True\<rparr>))
      | SdTest \<Rightarrow> Some (sd_goto t (if closed s then SdUnlock else SdMark) s)
      | SdMark \<Rightarrow> Some (sd_goto t (SdDeferred (defer_all shutdown_defers)) (s\<lparr>closed := True\<rparr>))
      | SdDeferred [] \<Rightarrow> Some (sd_goto t SdUnlock s)
      | SdDeferred (d # stack) \<Rightarrow>
          Some (s\<lparr>ran := ran s @ [d],
                  sd_gor := (sd_gor s)(t := \<lparr>sd_at = SdDeferred stack,
                                            panicking = (panicking g \<or> panics d)\<rparr>)\<rparr>)
      | SdUnlock \<Rightarrow> Some (sd_goto t SdReturned (s\<lparr>sd_mu := False\<rparr>))
      | SdReturned \<Rightarrow> None)"

text \<open>A schedule of \<open>N\<close> goroutines, as for \<^verbatim>\<open>Ref\<close> above.\<close>

fun sd_exec ::
  "('rq event \<Rightarrow> bool) \<Rightarrow> nat \<Rightarrow> nat list \<Rightarrow> 'rq sd_shared \<Rightarrow> 'rq sd_shared" where
  "sd_exec panics N [] s = s"
| "sd_exec panics N (t # ts) s =
     sd_exec panics N ts
       (case (if t < N then sd_step panics t s else None) of None \<Rightarrow> s | Some s' \<Rightarrow> s')"

text \<open>The number of statements the goroutines still have to run.\<close>

fun sd_todo :: "'rq sd_pc \<Rightarrow> nat" where
  "sd_todo SdLock = 10"
| "sd_todo SdTest = 9"
| "sd_todo SdMark = 8"
| "sd_todo (SdDeferred stack) = 2 + length stack"
| "sd_todo SdUnlock = 1"
| "sd_todo SdReturned = 0"

definition sd_remaining :: "nat \<Rightarrow> 'rq sd_shared \<Rightarrow> nat" where
  "sd_remaining N s = (\<Sum>t<N. sd_todo (sd_at (sd_gor s t)))"

text \<open>The five steps in the order the comment above \<^verbatim>\<open>shutdown\<close> documents.\<close>

definition shutdown_steps :: "'rq event list" where
  "shutdown_steps = [StdinClose, WgWait, Dispatch Shutdown, StdoutClose, CloseDone]"

text \<open>The invariant of the interleavings of \<^verbatim>\<open>shutdown\<close>.\<close>

fun in_sd :: "'rq sd_pc \<Rightarrow> bool" where
  "in_sd SdLock = False"
| "in_sd SdReturned = False"
| "in_sd _ = True"

definition sd_pcs :: "'rq sd_shared \<Rightarrow> nat \<Rightarrow> 'rq sd_pc" where
  "sd_pcs s t = sd_at (sd_gor s t)"

fun sd_local :: "'rq sd_shared \<Rightarrow> 'rq sd_pc \<Rightarrow> bool" where
  "sd_local s SdLock = True"
| "sd_local s SdTest = True"
| "sd_local s SdMark = (\<not> closed s \<and> ran s = [])"
| "sd_local s (SdDeferred stack) = (closed s \<and> ran s @ stack = shutdown_steps)"
| "sd_local s SdUnlock = (closed s \<and> ran s = shutdown_steps)"
| "sd_local s SdReturned = (closed s \<and> ran s = shutdown_steps)"

fun is_deferred :: "'rq sd_pc \<Rightarrow> bool" where
  "is_deferred (SdDeferred stack) = True"
| "is_deferred _ = False"

definition sd_inv :: "nat \<Rightarrow> 'rq sd_shared \<Rightarrow> bool" where
  "sd_inv N s \<longleftrightarrow>
     lock_ok in_sd N (sd_mu s) (sd_pcs s) \<and>
     (\<not> closed s \<longrightarrow> ran s = []) \<and>
     (closed s \<longrightarrow> ran s = shutdown_steps \<or> (\<exists>t<N. is_deferred (sd_pcs s t))) \<and>
     (\<forall>t<N. sd_local s (sd_pcs s t))"

subsection \<open>The response as it is sent\<close>

text \<open>
  The types \<^verbatim>\<open>State\<close>, \<^verbatim>\<open>View\<close> and \<^verbatim>\<open>ReducerProfile\<close> are declared elsewhere in
  the package. Of each, the record below has the fields \<^verbatim>\<open>finalize\<close> reads, and one field for all
  the others. \<^verbatim>\<open>State.View\<close> is a pointer, \<^verbatim>\<open>State.Config\<close> and
  \<^verbatim>\<open>ReducerProfile.Action\<close> are interface values: \<open>None\<close> is nil.
\<close>

record 'x View =
  changed :: int
  view_fields :: 'x

record ('act, 'tm, 'x) ReducerProfile =
  Action :: "'act option"
  Start :: 'tm
  End :: 'tm
  profile_fields :: 'x

record ('act, 'tm, 'ca, 'cfg, 'x) State =
  View :: "'x View option"
  Errors :: "string list"
  Profiles :: "('act, 'tm, 'x) ReducerProfile list"
  clientActions :: "'ca list"
  Config :: "'cfg option"
  state_fields :: 'x

record ('act, 'tm, 'ca, 'cfg, 'x) agentRes =
  Cookie :: string
  Error :: string
  State_ptr :: "('act, 'tm, 'ca, 'cfg, 'x) State option"

record ('act, 'tm, 'x) out_ReducerProfile =
  out_profile :: "('act, 'tm, 'x) ReducerProfile"
  out_Action :: string
  out_Start :: string
  out_End :: string

record ('act, 'tm, 'ca, 'cfg, 'ec, 'x) out_State =
  out_state :: "('act, 'tm, 'ca, 'cfg, 'x) State"
  out_Config :: "'ec option"
  out_ClientActions :: "'ca list"
  out_Profiles :: "('act, 'tm, 'x) out_ReducerProfile list"

record ('act, 'tm, 'ca, 'cfg, 'ec, 'x) out_agentRes =
  out_Cookie :: string
  out_Error :: string
  out_State :: "('act, 'tm, 'ca, 'cfg, 'ec, 'x) out_State"

datatype panic = NilDereference

text \<open>
  \<^verbatim>\<open>agentRes.finalize\<close>. The parameters stand for \<^verbatim>\<open>reflect.TypeOf(a).String()\<close>,
  \<^verbatim>\<open>t.Format(time.RFC3339Nano)\<close> and the method \<^verbatim>\<open>EditorConfig()\<close>. Dereferencing a nil
  \<^verbatim>\<open>rs.State\<close> or a nil \<^verbatim>\<open>View\<close> panics.
\<close>

definition finalize ::
  "('act \<Rightarrow> string) \<Rightarrow> ('tm \<Rightarrow> string) \<Rightarrow> ('cfg \<Rightarrow> 'ec)
     \<Rightarrow> ('act, 'tm, 'ca, 'cfg, 'x) agentRes
     \<Rightarrow> panic + ('act, 'tm, 'ca, 'cfg, 'ec, 'x) out_agentRes" where
  "finalize type_string format editor_config rs =
     (case State_ptr rs of
        None \<Rightarrow> Inl NilDereference
      | Some inSt \<Rightarrow>
          (let profiles =
                 map (\<lambda>p. \<lparr>out_profile = p,
                           out_Action = (case Action p of Some a \<Rightarrow> type_string a
                                         | None \<Rightarrow> ''mg.Render''),
                           out_Start = format (Start p),
                           out_End = format (End p)\<rparr>) (Profiles inSt);
               err = (if Error rs = [] then strings_Join (Errors inSt) [CHR 0x0A]
                      else Error rs)
           in case View inSt of
                None \<Rightarrow> Inl NilDereference
              | Some v \<Rightarrow>
                  Inr \<lparr>out_Cookie = Cookie rs,
                       out_Error = err,
                       out_State =
                         \<lparr>out_state = (if changed v = 0 then inSt\<lparr>View := None\<rparr> else inSt),
                          out_Config = map_option editor_config (Config inSt),
                          out_ClientActions = clientActions inSt,
                          out_Profiles = profiles\<rparr>\<rparr>))"

text \<open>
  \<^verbatim>\<open>Agent.send\<close> encodes the finalized response and flushes it to the output stream,
  under the lock of the agent. The output stream is the list of the messages written
  to it; \<open>encode\<close> tells which messages the encoder fails on, and with which error. The
  agent keeps nothing of a response after it has sent it.
\<close>

definition send ::
  "('act \<Rightarrow> string) \<Rightarrow> ('tm \<Rightarrow> string) \<Rightarrow> ('cfg \<Rightarrow> 'ec)
     \<Rightarrow> (('act, 'tm, 'ca, 'cfg, 'ec, 'x) out_agentRes \<Rightarrow> error option)
     \<Rightarrow> ('act, 'tm, 'ca, 'cfg, 'x) agentRes
     \<Rightarrow> ('act, 'tm, 'ca, 'cfg, 'ec, 'x) out_agentRes list
     \<Rightarrow> panic + error option \<times> ('act, 'tm, 'ca, 'cfg, 'ec, 'x) out_agentRes list" where
  "send type_string format editor_config encode res wire =
     (case finalize type_string format editor_config res of
        Inl p \<Rightarrow> Inl p
      | Inr out \<Rightarrow>
          (case encode out of
             None \<Rightarrow> Inr (None, wire @ [out])
           | Some err \<Rightarrow> Inr (Some err, wire)))"

text \<open>
  The sends of a sequence of responses, one after the other, as the listener of the
  store makes them; the listener logs a failed send and carries on.
\<close>

fun send_all ::
  "('act \<Rightarrow> string) \<Rightarrow> ('tm \<Rightarrow> string) \<Rightarrow> ('cfg \<Rightarrow> 'ec)
     \<Rightarrow> (('act, 'tm, 'ca, 'cfg, 'ec, 'x) out_agentRes \<Rightarrow> error option)
     \<Rightarrow> ('act, 'tm, 'ca, 'cfg, 'x) agentRes list
     \<Rightarrow> ('act, 'tm, 'ca, 'cfg, 'ec, 'x) out_agentRes list
     \<Rightarrow> panic + ('act, 'tm, 'ca, 'cfg, 'ec, 'x) out_agentRes list" where
  "send_all type_string format editor_config encode [] wire = Inr wire"
| "send_all type_string format editor_config encode (res # rest) wire =
     (case send type_string format editor_config encode res wire of
        Inl p \<Rightarrow> Inl p
      | Inr (err, wire') \<Rightarrow> send_all type_string format editor_config encode rest wire')"

text \<open>The view of each message that a sequence of sends writes to an empty stream.\<close>

definition sent_views ::
  "('act \<Rightarrow> string) \<Rightarrow> ('tm \<Rightarrow> string) \<Rightarrow> ('cfg \<Rightarrow> 'ec)
     \<Rightarrow> (('act, 'tm, 'ca, 'cfg, 'ec, 'x) out_agentRes \<Rightarrow> error option)
     \<Rightarrow> ('act, 'tm, 'ca, 'cfg, 'x) agentRes list \<Rightarrow> 'x View option list option" where
  "sent_views type_string format editor_config encode rss =
     (case send_all type_string format editor_config encode rss [] of
        Inl p \<Rightarrow> None
      | Inr wire \<Rightarrow> Some (map (\<lambda>out. View (out_state (out_State out))) wire))"

text \<open>
  An encoder that never fails, and two responses that differ in the change counter of
  the view only.
\<close>

definition encode_ok :: "'a \<Rightarrow> error option" where
  "encode_ok out = None"

definition res_with :: "int \<Rightarrow> (string, string, string, string, unit) agentRes" where
  "res_with c =
     \<lparr>Cookie = ''c1'', Error = [],
      State_ptr = Some \<lparr>View = Some \<lparr>changed = c, view_fields = ()\<rparr>,
                        Errors = [''e1'', ''e2''], Profiles = [], clientActions = [],
                        Config = None, state_fields = ()\<rparr>\<rparr>"

section \<open>Properties of the key-value stores\<close>

lemma index_put: "index (put m k c) k' = (if k' = k then c else index m k')"
  by (simp add: index_def put_def Let_def split: option.splits)

lemma index_delete: "index (delete m k) k' = (if k' = k then Raw None else index m k')"
  by (simp add: index_def delete_def split: option.splits)

lemma index_zero: "index zeroKVMap k = Raw None"
  by (simp add: index_def zeroKVMap_def)

lemma put_put: "put (put m k c) k c = put m k c"
  by (simp add: put_def Let_def)

lemma delete_delete: "delete (delete m k) k = delete m k"
  by (cases "vals m") (simp_all add: delete_def)

lemma first_hit_append: "first_hit (xs @ ys) = (case first_hit xs of Some v \<Rightarrow> Some v | None \<Rightarrow> first_hit ys)"
  by (induction xs rule: first_hit.induct) simp_all

lemma first_hit_none: "(\<And>x. x \<in> set xs \<Longrightarrow> f x = None) \<Longrightarrow> first_hit (map f xs) = None"
  by (induction xs) simp_all

lemma KVStores_Put_maps:
  "maps (KVStores_Put kvl k v h) a =
     (if a \<in> set (KVMaps_of kvl) then put (maps h a) k (Raw v) else maps h a)"
proof (induction kvl k v h rule: KVStores_Put.induct)
  case (3 p kvl k v h)
  then show ?case by (cases p) (auto simp: KVMap_Put_def put_put)
next
  case (4 l kvl k v h)
  then show ?case by (auto simp: put_put)
qed simp_all

lemma KVStores_Put_refs:
  "refs (KVStores_Put kvl k v h) = refs h \<and> nrefs (KVStores_Put kvl k v h) = nrefs h"
proof (induction kvl k v h rule: KVStores_Put.induct)
  case (3 p kvl k v h)
  then show ?case by (cases p) (simp_all add: KVMap_Put_def)
qed simp_all

lemma KVStores_Del_maps:
  "maps (KVStores_Del kvl k h) a =
     (if a \<in> set (KVMaps_of kvl) then delete (maps h a) k else maps h a)"
proof (induction kvl k h rule: KVStores_Del.induct)
  case (3 p kvl k h)
  then show ?case by (cases p) (auto simp: KVMap_Del_def delete_delete)
next
  case (4 l kvl k h)
  then show ?case by (auto simp: delete_delete)
qed simp_all

lemma KVStores_Del_refs:
  "refs (KVStores_Del kvl k h) = refs h \<and> nrefs (KVStores_Del kvl k h) = nrefs h"
proof (induction kvl k h rule: KVStores_Del.induct)
  case (3 p kvl k h)
  then show ?case by (cases p) (simp_all add: KVMap_Del_def)
qed simp_all

lemma KVStores_Get_first_hit:
  "KVStores_Get kvl k h = first_hit (map (\<lambda>a. KVMap_Get (Some a) k h) (KVMaps_of kvl))"
proof (induction kvl k h rule: KVStores_Get.induct)
  case (3 p kvl k h)
  then show ?case
    by (cases p; cases "KVMap_Get p k h") (simp_all add: KVMap_Get_def)
next
  case (4 l kvl k h)
  then show ?case by (simp add: first_hit_append split: option.splits)
qed simp_all

lemma KVMaps_of_skip_nil: "KVMaps_of (filter (\<lambda>s. s \<noteq> NilKVStore) kvl) = KVMaps_of kvl"
  by (induction kvl rule: KVMaps_of.induct) simp_all

lemma mem_eqI:
  fixes h h' :: "('k, 'v) mem"
  shows "maps h = maps h' \<Longrightarrow> refs h = refs h' \<Longrightarrow> nrefs h = nrefs h' \<Longrightarrow> h = h'"
  by simp

lemma KVStores_skip_nil:
  "KVStores_Put (filter (\<lambda>s. s \<noteq> NilKVStore) kvl) k v h = KVStores_Put kvl k v h"
  "KVStores_Get (filter (\<lambda>s. s \<noteq> NilKVStore) kvl) k h = KVStores_Get kvl k h"
  "KVStores_Del (filter (\<lambda>s. s \<noteq> NilKVStore) kvl) k h = KVStores_Del kvl k h"
proof -
  show "KVStores_Put (filter (\<lambda>s. s \<noteq> NilKVStore) kvl) k v h = KVStores_Put kvl k v h"
    by (rule mem_eqI) (auto simp: KVStores_Put_maps KVStores_Put_refs KVMaps_of_skip_nil)
  show "KVStores_Get (filter (\<lambda>s. s \<noteq> NilKVStore) kvl) k h = KVStores_Get kvl k h"
    by (simp add: KVStores_Get_first_hit KVMaps_of_skip_nil)
  show "KVStores_Del (filter (\<lambda>s. s \<noteq> NilKVStore) kvl) k h = KVStores_Del kvl k h"
    by (rule mem_eqI) (auto simp: KVStores_Del_maps KVStores_Del_refs KVMaps_of_skip_nil)
qed

text \<open>
  Claim C2. For every \<^verbatim>\<open>KVStores\<close> list and key: \<^verbatim>\<open>Put(k, v)\<close> writes \<open>v\<close> under \<open>k\<close> to
  every non-nil store of the list and to nothing else, so that each of them then returns
  \<open>v\<close>; \<^verbatim>\<open>Get(k)\<close> is the first non-nil value found when the stores are consulted in
  order; \<^verbatim>\<open>Del(k)\<close> removes \<open>k\<close> from every non-nil store, after which no store of the
  list and not the list itself has a value under \<open>k\<close>; nil entries are skipped, and the
  nil list is an empty store.
\<close>

theorem KVStores_fan_out:
  "maps (KVStores_Put kvl k v h) a =
     (if a \<in> set (KVMaps_of kvl) then put (maps h a) k (Raw v) else maps h a)
   \<and> (\<forall>a \<in> set (KVMaps_of kvl). KVMap_Get (Some a) k (KVStores_Put kvl k v h) = v)
   \<and> KVStores_Get kvl k h = first_hit (map (\<lambda>a. KVMap_Get (Some a) k h) (KVMaps_of kvl))
   \<and> maps (KVStores_Del kvl k h) a =
       (if a \<in> set (KVMaps_of kvl) then delete (maps h a) k else maps h a)
   \<and> (\<forall>a \<in> set (KVMaps_of kvl). KVMap_Get (Some a) k (KVStores_Del kvl k h) = None)
   \<and> KVStores_Get kvl k (KVStores_Del kvl k h) = None
   \<and> KVStores_Put (filter (\<lambda>s. s \<noteq> NilKVStore) kvl) k v h = KVStores_Put kvl k v h
   \<and> KVStores_Get (filter (\<lambda>s. s \<noteq> NilKVStore) kvl) k h = KVStores_Get kvl k h
   \<and> KVStores_Del (filter (\<lambda>s. s \<noteq> NilKVStore) kvl) k h = KVStores_Del kvl k h
   \<and> KVStores_Put [] k v h = h \<and> KVStores_Get [] k h = None \<and> KVStores_Del [] k h = h"
proof -
  have g: "KVMap_Get (Some a) k (KVStores_Put kvl k v h) = v" if "a \<in> set (KVMaps_of kvl)" for a
    using that by (simp add: KVStores_Put_maps KVMap_Get_def index_put unref_def)
  have d: "KVMap_Get (Some a) k (KVStores_Del kvl k h) = None" if "a \<in> set (KVMaps_of kvl)" for a
    using that by (simp add: KVStores_Del_maps KVMap_Get_def index_delete unref_def)
  have n: "KVStores_Get kvl k (KVStores_Del kvl k h) = None"
    unfolding KVStores_Get_first_hit by (rule first_hit_none) (rule d)
  show ?thesis
    by (intro conjI ballI g d n KVStores_Put_maps KVStores_Del_maps KVStores_Get_first_hit
        KVStores_skip_nil KVStores_Put.simps(1) KVStores_Get.simps(1) KVStores_Del.simps(1))
qed

text \<open>
  The list \<open>[A, nil, B]\<close>, with \<open>A\<close> and \<open>B\<close> holding 10 and 20 under the key 1:
  \<^verbatim>\<open>Get\<close> returns the value of \<open>A\<close>, \<^verbatim>\<open>Del\<close> removes the key from both, \<^verbatim>\<open>Put\<close>
  reaches \<open>B\<close> behind the nil entry.
\<close>

theorem KVStores_fan_out_witness:
  "0 \<in> set (KVMaps_of [KVMapPtr (Some 0), NilKVStore, KVMapPtr (Some 1)])
   \<and> 1 \<in> set (KVMaps_of [KVMapPtr (Some 0), NilKVStore, KVMapPtr (Some 1)])
   \<and> KVMap_Get (Some 0) (1::nat)
        (KVMap_Put (Some 1) 1 (Some 20) (KVMap_Put (Some 0) 1 (Some (10::nat)) zero_mem)) = Some 10
   \<and> KVMap_Get (Some 1) (1::nat)
        (KVMap_Put (Some 1) 1 (Some 20) (KVMap_Put (Some 0) 1 (Some (10::nat)) zero_mem)) = Some 20
   \<and> KVStores_Get [KVMapPtr (Some 0), NilKVStore, KVMapPtr (Some 1)] (1::nat)
        (KVMap_Put (Some 1) 1 (Some 20) (KVMap_Put (Some 0) 1 (Some (10::nat)) zero_mem)) = Some 10
   \<and> KVMap_Get (Some 0) (1::nat)
        (KVStores_Del [KVMapPtr (Some 0), NilKVStore, KVMapPtr (Some 1)] 1
          (KVMap_Put (Some 1) 1 (Some 20) (KVMap_Put (Some 0) 1 (Some (10::nat)) zero_mem))) = None
   \<and> KVMap_Get (Some 1) (1::nat)
        (KVStores_Del [KVMapPtr (Some 0), NilKVStore, KVMapPtr (Some 1)] 1
          (KVMap_Put (Some 1) 1 (Some 20) (KVMap_Put (Some 0) 1 (Some (10::nat)) zero_mem))) = None
   \<and> KVMap_Get (Some 1) (1::nat)
        (KVStores_Put [KVMapPtr (Some 0), NilKVStore, KVMapPtr (Some 1)] 1 (Some 30)
          (KVMap_Put (Some 1) 1 (Some 20) (KVMap_Put (Some 0) 1 (Some (10::nat)) zero_mem))) = Some 30"
  using KVStores_fan_out[of "[KVMapPtr (Some 0), NilKVStore, KVMapPtr (Some 1)]" "1::nat" "Some (30::nat)"
      "KVMap_Put (Some 1) 1 (Some 20) (KVMap_Put (Some 0) 1 (Some (10::nat)) zero_mem)" 0]
  by (simp add: KVMap_Get_def KVMap_Put_def KVMap_Del_def unref_def index_def put_def delete_def
      zero_mem_def zeroKVMap_def Let_def)

text \<open>
  Claim C3. On a non-nil \<^verbatim>\<open>KVMap\<close>, \<^verbatim>\<open>Get(k)\<close> after \<^verbatim>\<open>Put(k, v)\<close> returns \<open>v\<close>,
  whatever was stored before, and \<^verbatim>\<open>Get(k)\<close> after \<^verbatim>\<open>Del(k)\<close> returns nil, as it
  does on a fresh map, where \<open>k\<close> was never stored. Other keys are not affected.
\<close>

theorem KVMap_put_get_del:
  "KVMap_Get (Some a) k' (KVMap_Put (Some a) k v h) = (if k' = k then v else KVMap_Get (Some a) k' h)
   \<and> KVMap_Get (Some a) k' (KVMap_Del (Some a) k h) = (if k' = k then None else KVMap_Get (Some a) k' h)
   \<and> KVMap_Get (Some a) k (KVMap_Put (Some a) k v (KVMap_Put (Some a) k w h)) = v
   \<and> KVMap_Get (Some a) k (KVMap_Del (Some a) k (KVMap_Put (Some a) k v h)) = None
   \<and> KVMap_Get (Some a) k (h\<lparr>maps := (maps h)(a := zeroKVMap)\<rparr>) = None"
  by (simp add: KVMap_Get_def KVMap_Put_def KVMap_Del_def unref_def index_put index_delete index_zero
      split: cell.splits)

text \<open>
  Claim C4. On a nil receiver \<^verbatim>\<open>Put\<close>, \<^verbatim>\<open>Del\<close> and \<^verbatim>\<open>Clear\<close> leave the memory as it
  is, \<^verbatim>\<open>Get\<close> returns nil and \<^verbatim>\<open>Values\<close> the nil map; \<^verbatim>\<open>Ref\<close> on a nil \<^verbatim>\<open>KVMap\<close>
  calls the initializer and returns its result. No method has a failing branch.
\<close>

theorem nil_receiver_noop:
  "KVMap_Put None k v h = h
   \<and> KVMap_Del None k h = h
   \<and> KVMap_Clear None h = h
   \<and> KVMap_Get None k h = None
   \<and> KVMap_Values None h = None
   \<and> KVMap_Ref None k new h = (new (), True, h)
   \<and> KVStores_Put [] k v h = h
   \<and> KVStores_Del [] k h = h
   \<and> KVStores_Get [] k h = None"
  by (simp add: KVMap_Get_def KVMap_Put_def KVMap_Del_def KVMap_Clear_def KVMap_Values_def KVMap_Ref_def)

text \<open>
  Claim C10. After \<^verbatim>\<open>Put(k, nil)\<close>, \<^verbatim>\<open>Get(k)\<close> returns nil, as for a key never stored;
  in a \<^verbatim>\<open>KVStores\<close> list, \<^verbatim>\<open>Get(k)\<close> passes over a store that holds nil under \<open>k\<close>
  and goes on to the later stores.
\<close>

theorem nil_value_is_absence:
  "KVMap_Get (Some a) k (KVMap_Put (Some a) k None h) = None
   \<and> KVMap_Get (Some a) k (h\<lparr>maps := (maps h)(a := zeroKVMap)\<rparr>) = None
   \<and> KVStores_Get (KVMapPtr (Some a) # kvl) k (KVMap_Put (Some a) k None h)
       = KVStores_Get kvl k (KVMap_Put (Some a) k None h)
   \<and> KVStores_Get [KVMapPtr (Some a), KVMapPtr (Some b)] k
        (KVMap_Put (Some b) k (Some v) (KVMap_Put (Some a) k None h)) = Some v"
  by (simp add: KVMap_Get_def KVMap_Put_def unref_def index_put index_zero)

lemma KVMap_Ref_box:
  assumes "KVMap_Ref (Some a) k new h = (v, called, h1)"
  shows "\<exists>r. index (maps h1 a) k = KvRefPtr r \<and> val (refs h1 r) = v"
    and "called \<Longrightarrow> v = new ()"
    and "v \<noteq> None \<Longrightarrow> \<not> called \<Longrightarrow> KVMap_Get (Some a) k h = v"
  using assms
  by (auto simp: KVMap_Ref_def ref_def KVMap_Get_def unref_def Let_def index_put
      split: cell.splits if_splits)

lemma KVMap_Ref_twice:
  assumes "KVMap_Ref (Some a) k new h = (v, called, h1)"
    and "KVMap_Ref (Some a) k new2 h1 = (v2, called2, h2)"
  shows "(called \<and> new () = None \<longrightarrow>
            v = None \<and> KVMap_Get (Some a) k h1 = None \<and> called2 \<and> v2 = new2 ())
       \<and> (v \<noteq> None \<longrightarrow> KVMap_Get (Some a) k h1 = v \<and> \<not> called2 \<and> v2 = v \<and> h2 = h1)"
proof -
  obtain r where r: "index (maps h1 a) k = KvRefPtr r" "val (refs h1 r) = v"
    using KVMap_Ref_box(1)[OF assms(1)] by blast
  have g: "KVMap_Get (Some a) k h1 = v"
    using r by (simp add: KVMap_Get_def unref_def)
  have c: "called \<Longrightarrow> v = new ()"
    using KVMap_Ref_box(2)[OF assms(1)] .
  have s: "called2 = (v = None) \<and> v2 = (if v = None then new2 () else v) \<and> (v \<noteq> None \<longrightarrow> h2 = h1)"
    using assms(2) r by (auto simp: KVMap_Ref_def ref_def Let_def)
  show ?thesis using g c s by auto
qed

text \<open>
  Claim C9. When the initializer of \<^verbatim>\<open>Ref(k, new)\<close> is called and returns nil, the call
  returns nil, the box of \<open>k\<close> stays empty, and the next \<^verbatim>\<open>Ref(k, new2)\<close> calls \<open>new2\<close>
  and returns its result. When \<^verbatim>\<open>Ref\<close> returns a non-nil value, the next \<^verbatim>\<open>Ref\<close>
  returns the same value without calling its initializer.
\<close>

theorem Ref_nil_stays_unmaterialized:
  "case KVMap_Ref (Some a) k new h of (v, called, h1) \<Rightarrow>
     (case KVMap_Ref (Some a) k new2 h1 of (v2, called2, h2) \<Rightarrow>
        (called \<and> new () = None \<longrightarrow>
           v = None \<and> KVMap_Get (Some a) k h1 = None \<and> called2 \<and> v2 = new2 ())
      \<and> (v \<noteq> None \<longrightarrow> KVMap_Get (Some a) k h1 = v \<and> \<not> called2 \<and> v2 = v \<and> h2 = h1))"
proof -
  obtain v called h1 where x: "KVMap_Ref (Some a) k new h = (v, called, h1)"
    by (cases "KVMap_Ref (Some a) k new h") auto
  obtain v2 called2 h2 where y: "KVMap_Ref (Some a) k new2 h1 = (v2, called2, h2)"
    by (cases "KVMap_Ref (Some a) k new2 h1") auto
  show ?thesis using KVMap_Ref_twice[OF x y] by (simp add: x y)
qed

text \<open>
  On a fresh map: an initializer that returns nil, then one that returns 7, which is
  called and whose value a third call finds; and a first initializer that returns 7,
  after which the second call does not call its own.
\<close>

theorem Ref_nil_stays_unmaterialized_witness:
  "(case KVMap_Ref (Some 0) (1::nat) (\<lambda>_. None) zero_mem of (v, called, h1) \<Rightarrow>
     (case KVMap_Ref (Some 0) 1 (\<lambda>_. Some (7::nat)) h1 of (v2, called2, h2) \<Rightarrow>
        called \<and> v = None \<and> KVMap_Get (Some 0) 1 h1 = None \<and> called2 \<and> v2 = Some 7
        \<and> KVMap_Get (Some 0) 1 h2 = Some 7
        \<and> (case KVMap_Ref (Some 0) 1 (\<lambda>_. Some 8) h2 of (v3, called3, h3) \<Rightarrow>
              \<not> called3 \<and> v3 = Some 7)))
   \<and> (case KVMap_Ref (Some 0) (1::nat) (\<lambda>_. Some (7::nat)) zero_mem of (v, called, h1) \<Rightarrow>
     (case KVMap_Ref (Some 0) 1 (\<lambda>_. Some 8) h1 of (v2, called2, h2) \<Rightarrow>
        called \<and> v = Some 7 \<and> \<not> called2 \<and> v2 = Some 7 \<and> h2 = h1))"
  using Ref_nil_stays_unmaterialized[where a = 0 and k = "1::nat" and new = "\<lambda>_. None"
      and h = "zero_mem :: (nat, nat) mem" and ?new2.0 = "\<lambda>_. Some (7::nat)"]
    Ref_nil_stays_unmaterialized[where a = 0 and k = "1::nat" and new = "\<lambda>_. Some (7::nat)"
      and h = "zero_mem :: (nat, nat) mem" and ?new2.0 = "\<lambda>_. Some (8::nat)"]
  by (simp add: KVMap_Ref_def ref_def KVMap_Get_def unref_def index_def put_def zero_mem_def
      zeroKVMap_def Let_def)

section \<open>Properties of concurrent \<^verbatim>\<open>Ref\<close> calls\<close>

lemma inv_fresh: "inv k new N fresh"
  by (simp add: inv_def lock_ok_def pcs_def table_ok_def once_def local_inv_def fresh_def index_def zeroKVMap_def)

lemma lock_ok_enter:
  "lock_ok P N False l \<Longrightarrow> t < N \<Longrightarrow> P x \<Longrightarrow> lock_ok P N True (l(t := x))"
  unfolding lock_ok_def by (metis fun_upd_apply)

lemma lock_ok_inside:
  "lock_ok P N b l \<Longrightarrow> t < N \<Longrightarrow> P (l t) \<Longrightarrow> P x \<Longrightarrow> lock_ok P N b (l(t := x))"
  unfolding lock_ok_def by (metis fun_upd_apply)

lemma lock_ok_leave:
  "lock_ok P N b l \<Longrightarrow> t < N \<Longrightarrow> P (l t) \<Longrightarrow> \<not> P x \<Longrightarrow> lock_ok P N False (l(t := x))"
  unfolding lock_ok_def by (metis fun_upd_apply)

lemma lock_ok_outside:
  "lock_ok P N b l \<Longrightarrow> \<not> P (l t) \<Longrightarrow> \<not> P x \<Longrightarrow> lock_ok P N b (l(t := x))"
  unfolding lock_ok_def by (metis fun_upd_apply)

lemma lock_ok_unique:
  "lock_ok P N b l \<Longrightarrow> t < N \<Longrightarrow> u < N \<Longrightarrow> P (l t) \<Longrightarrow> P (l u) \<Longrightarrow> t = u"
  unfolding lock_ok_def by blast

lemma lock_ok_held:
  "lock_ok P N b l \<Longrightarrow> t < N \<Longrightarrow> P (l t) \<Longrightarrow> b"
  unfolding lock_ok_def by blast

lemma lock_ok_holder:
  "lock_ok P N True l \<Longrightarrow> \<exists>t<N. P (l t)"
  unfolding lock_ok_def by blast

lemma goto_simps [simp]:
  "gor (goto t l s) = (gor s)(t := (gor s t)\<lparr>at := l\<rparr>)"
  "mu (goto t l s) = mu s"
  "boxes (goto t l s) = boxes s"
  "nboxes (goto t l s) = nboxes s"
  "calls (goto t l s) = calls s"
  "kvmap (goto t l s) = kvmap s"
  by (simp_all add: goto_def)

lemma pcs_gor_upd [simp]:
  "pcs (s\<lparr>gor := (gor s)(t := g)\<rparr>) = (pcs s)(t := at g)"
  by (rule ext) (simp add: pcs_def)

lemma pcs_goto [simp]: "pcs (goto t l s) = (pcs s)(t := l)"
  by (rule ext) (simp add: pcs_def)

lemma pcs_other_upd [simp]:
  "pcs (s\<lparr>mu := b\<rparr>) = pcs s"
  "pcs (s\<lparr>boxes := bs\<rparr>) = pcs s"
  "pcs (s\<lparr>calls := c\<rparr>) = pcs s"
  "pcs (s\<lparr>nboxes := n\<rparr>) = pcs s"
  "pcs (s\<lparr>kvmap := m\<rparr>) = pcs s"
  by (rule ext, simp add: pcs_def)+

lemma local_inv_cong:
  "nboxes s' = nboxes s \<Longrightarrow> lval (boxes s' 0) = lval (boxes s 0)
   \<Longrightarrow> local_inv new s' g = local_inv new s g"
  by (simp add: local_inv_def)

lemma table_ok_cong:
  "nboxes s' = nboxes s \<Longrightarrow> lval (boxes s' 0) = lval (boxes s 0) \<Longrightarrow> kvmap s' = kvmap s
   \<Longrightarrow> table_ok k s' = table_ok k s"
  by (simp add: table_ok_def)

lemma once_cong:
  "calls s' = calls s \<Longrightarrow> lval (boxes s' 0) = lval (boxes s 0) \<Longrightarrow> once new s' = once new s"
  by (simp add: once_def split: option.splits)

lemma invI:
  "lock_ok in_mu N (mu s) (pcs s) \<Longrightarrow> lock_ok in_box N (locked (boxes s 0)) (pcs s)
   \<Longrightarrow> table_ok k s \<Longrightarrow> once new s \<Longrightarrow> (\<And>u. u < N \<Longrightarrow> local_inv new s (gor s u))
   \<Longrightarrow> inv k new N s"
  by (simp add: inv_def)

lemma invD:
  assumes "inv k new N s"
  shows "lock_ok in_mu N (mu s) (pcs s)" "lock_ok in_box N (locked (boxes s 0)) (pcs s)"
    "table_ok k s" "once new s" "\<And>u. u < N \<Longrightarrow> local_inv new s (gor s u)"
  using assms by (simp_all add: inv_def)

lemma inv_MuLock:
  assumes i: "inv k new N s" and t: "t < N" and pc: "pcs s t = MuLock" and en: "\<not> mu s"
  shows "inv k new N (goto t RefLoad (s\<lparr>mu := True\<rparr>))"
proof (rule invI)
  let ?s = "goto t RefLoad (s\<lparr>mu := True\<rparr>)"
  note a = invD[OF i]
  show "lock_ok in_mu N (mu ?s) (pcs ?s)"
    using lock_ok_enter[of in_mu N "pcs s" t RefLoad] a(1) t en by simp
  show "lock_ok in_box N (locked (boxes ?s 0)) (pcs ?s)"
    using lock_ok_outside[OF a(2), of t RefLoad] pc by simp
  show "table_ok k ?s" using a(3) by (simp add: table_ok_cong[of ?s s])
  show "once new ?s" using a(4) by (simp add: once_cong[of ?s s])
  show "local_inv new ?s (gor ?s u)" if "u < N" for u
    using a(5)[OF that] by (simp add: local_inv_def)
qed

lemma inv_RefLoad_ptr:
  assumes i: "inv k new N s" and t: "t < N" and pc: "pcs s t = RefLoad"
    and ix: "index (kvmap s) k = KvRefPtr a"
  shows "inv k new N (s\<lparr>gor := (gor s)(t := (gor s t)\<lparr>at := MuUnlock, loc_ref := a\<rparr>)\<rparr>)"
proof (rule invI)
  let ?s = "s\<lparr>gor := (gor s)(t := (gor s t)\<lparr>at := MuUnlock, loc_ref := a\<rparr>)\<rparr>"
  note a = invD[OF i]
  show "lock_ok in_mu N (mu ?s) (pcs ?s)"
    using lock_ok_inside[OF a(1) t, of MuUnlock] pc by simp
  show "lock_ok in_box N (locked (boxes ?s 0)) (pcs ?s)"
    using lock_ok_outside[OF a(2), of t MuUnlock] pc by simp
  show "table_ok k ?s" using a(3) by (simp add: table_ok_cong[of ?s s])
  show "once new ?s" using a(4) by (simp add: once_cong[of ?s s])
  have "nboxes s = 1 \<and> a = 0" using a(3) ix by (simp add: table_ok_def split: if_splits)
  then show "local_inv new ?s (gor ?s u)" if "u < N" for u
    using a(5)[OF that] by (simp add: local_inv_def)
qed

lemma inv_RefLoad_raw:
  assumes i: "inv k new N s" and t: "t < N" and pc: "pcs s t = RefLoad"
    and ix: "index (kvmap s) k = Raw v"
  shows "inv k new N (s\<lparr>gor := (gor s)(t := (gor s t)\<lparr>at := RefNew, loc_v := v\<rparr>)\<rparr>)"
proof (rule invI)
  let ?s = "s\<lparr>gor := (gor s)(t := (gor s t)\<lparr>at := RefNew, loc_v := v\<rparr>)\<rparr>"
  note a = invD[OF i]
  show "lock_ok in_mu N (mu ?s) (pcs ?s)"
    using lock_ok_inside[OF a(1) t, of RefNew] pc by simp
  show "lock_ok in_box N (locked (boxes ?s 0)) (pcs ?s)"
    using lock_ok_outside[OF a(2), of t RefNew] pc by simp
  show "table_ok k ?s" using a(3) by (simp add: table_ok_cong[of ?s s])
  show "once new ?s" using a(4) by (simp add: once_cong[of ?s s])
  have "nboxes s = 0 \<and> v = None" using a(3) ix by (simp add: table_ok_def split: if_splits)
  then show "local_inv new ?s (gor ?s u)" if "u < N" for u
    using a(5)[OF that] by (simp add: local_inv_def)
qed

lemma inv_RefNew:
  assumes i: "inv k new N s" and t: "t < N" and pc: "pcs s t = RefNew"
  shows "inv k new N
           (s\<lparr>boxes := (boxes s)(nboxes s := \<lparr>locked = False, lval = loc_v (gor s t)\<rparr>),
              nboxes := Suc (nboxes s),
              kvmap := put (kvmap s) k (KvRefPtr (nboxes s)),
              gor := (gor s)(t := (gor s t)\<lparr>at := MuUnlock, loc_ref := nboxes s\<rparr>)\<rparr>)"
    (is "inv k new N ?s")
proof (rule invI)
  note a = invD[OF i]
  have n: "nboxes s = 0" "loc_v (gor s t) = None"
    using a(5)[OF t] pc by (simp_all add: local_inv_def pcs_def)
  have others: "pcs s u = MuLock \<or> pcs s u = RefLoad" if "u < N" "u \<noteq> t" for u
  proof -
    have "\<not> in_mu (pcs s u) \<or> u = t"
      using lock_ok_unique[OF a(1) that(1) t] pc by auto
    moreover have "\<not> has_ref (pcs s u)"
      using a(5)[OF that(1)] n by (auto simp: local_inv_def pcs_def)
    ultimately show ?thesis using that(2) by (cases "pcs s u") auto
  qed
  have nobox: "\<not> in_box (pcs s u)" if "u < N" for u
    using others[OF that] pc by (cases "u = t") auto
  have unl: "\<not> locked (boxes s 0)"
    using a(2) nobox by (auto simp: lock_ok_def)
  have p: "pcs ?s = (pcs s)(t := MuUnlock)"
    by (rule ext) (simp add: pcs_def)
  show "lock_ok in_mu N (mu ?s) (pcs ?s)"
    using lock_ok_inside[OF a(1) t, of MuUnlock] pc by (simp add: p)
  have l: "locked (boxes ?s 0) = False" using n by simp
  show "lock_ok in_box N (locked (boxes ?s 0)) (pcs ?s)"
    unfolding p l using lock_ok_outside[OF a(2), of t MuUnlock] pc unl by simp
  show "table_ok k ?s" using n by (simp add: table_ok_def index_put)
  show "once new ?s" using a(4) a(3) n by (simp add: once_def table_ok_def)
  show "local_inv new ?s (gor ?s u)" if "u < N" for u
  proof (cases "u = t")
    case True
    then show ?thesis using n by (simp add: local_inv_def)
  next
    case False
    then show ?thesis using others[OF that False] by (auto simp: local_inv_def pcs_def)
  qed
qed

lemma inv_MuUnlock:
  assumes i: "inv k new N s" and t: "t < N" and pc: "pcs s t = MuUnlock"
  shows "inv k new N (goto t RefLock (s\<lparr>mu := False\<rparr>))"
proof (rule invI)
  let ?s = "goto t RefLock (s\<lparr>mu := False\<rparr>)"
  note a = invD[OF i]
  show "lock_ok in_mu N (mu ?s) (pcs ?s)"
    using lock_ok_leave[OF a(1) t, of RefLock] pc by simp
  show "lock_ok in_box N (locked (boxes ?s 0)) (pcs ?s)"
    using lock_ok_outside[OF a(2), of t RefLock] pc by simp
  show "table_ok k ?s" using a(3) by (simp add: table_ok_cong[of ?s s])
  show "once new ?s" using a(4) by (simp add: once_cong[of ?s s])
  show "local_inv new ?s (gor ?s u)" if "u < N" for u
    using a(5)[OF that] a(5)[OF t] pc by (auto simp add: local_inv_def pcs_def)
qed

lemma inv_RefLock:
  assumes i: "inv k new N s" and t: "t < N" and pc: "pcs s t = RefLock"
    and en: "\<not> locked (boxes s (loc_ref (gor s t)))"
  shows "inv k new N
           (goto t TestVal (s\<lparr>boxes := (boxes s)(loc_ref (gor s t) :=
              (boxes s (loc_ref (gor s t)))\<lparr>locked := True\<rparr>)\<rparr>))"
    (is "inv k new N ?s")
proof (rule invI)
  note a = invD[OF i]
  have r: "loc_ref (gor s t) = 0" "nboxes s = 1"
    using a(5)[OF t] pc by (simp_all add: local_inv_def pcs_def)
  show "lock_ok in_mu N (mu ?s) (pcs ?s)"
    using lock_ok_outside[OF a(1), of t TestVal] pc by simp
  show "lock_ok in_box N (locked (boxes ?s 0)) (pcs ?s)"
    using lock_ok_enter[of in_box N "pcs s" t TestVal] a(2) t en r by simp
  show "table_ok k ?s" using a(3) r by (simp add: table_ok_def)
  show "once new ?s" using a(4) r by (simp add: once_def split: option.splits)
  show "local_inv new ?s (gor ?s u)" if "u < N" for u
    using a(5)[OF that] a(5)[OF t] pc r by (auto simp add: local_inv_def pcs_def)
qed

lemma inv_TestVal:
  assumes i: "inv k new N s" and t: "t < N" and pc: "pcs s t = TestVal"
  shows "inv k new N
           (goto t (if lval (boxes s (loc_ref (gor s t))) = None then CallNew else ReadVal) s)"
    (is "inv k new N ?s")
proof (rule invI)
  note a = invD[OF i]
  have r: "loc_ref (gor s t) = 0" "nboxes s = 1"
    using a(5)[OF t] pc by (simp_all add: local_inv_def pcs_def)
  show "lock_ok in_mu N (mu ?s) (pcs ?s)"
    using lock_ok_outside[OF a(1), of t] pc by simp
  show "lock_ok in_box N (locked (boxes ?s 0)) (pcs ?s)"
    using lock_ok_inside[OF a(2) t] pc by simp
  show "table_ok k ?s" using a(3) r by (simp add: table_ok_def)
  show "once new ?s" using a(4) r by (simp add: once_def split: option.splits)
  show "local_inv new ?s (gor ?s u)" if "u < N" for u
    using a(5)[OF that] a(5)[OF t] pc r by (auto simp add: local_inv_def pcs_def)
qed

lemma inv_CallNew:
  assumes i: "inv k new N s" and t: "t < N" and pc: "pcs s t = CallNew" and nn: "new 0 \<noteq> None"
  shows "inv k new N
           (goto t ReadVal
              (s\<lparr>boxes := (boxes s)(loc_ref (gor s t) :=
                    (boxes s (loc_ref (gor s t)))\<lparr>lval := new (calls s)\<rparr>),
                 calls := Suc (calls s)\<rparr>))"
    (is "inv k new N ?s")
proof (rule invI)
  note a = invD[OF i]
  have r: "loc_ref (gor s t) = 0" "nboxes s = 1" "lval (boxes s 0) = None"
    using a(5)[OF t] pc by (simp_all add: local_inv_def pcs_def)
  have c: "calls s = 0" using a(4) r by (simp add: once_def)
  have others: "\<not> in_box (pcs s u) \<and> pcs s u \<noteq> Returned" if "u < N" "u \<noteq> t" for u
  proof -
    have "\<not> in_box (pcs s u)"
      using lock_ok_unique[OF a(2) that(1) t] pc that(2) by auto
    moreover have "pcs s u \<noteq> Returned"
      using a(5)[OF that(1)] r nn by (auto simp: local_inv_def pcs_def)
    ultimately show ?thesis by simp
  qed
  show "lock_ok in_mu N (mu ?s) (pcs ?s)"
    using lock_ok_outside[OF a(1), of t] pc by simp
  show "lock_ok in_box N (locked (boxes ?s 0)) (pcs ?s)"
    using lock_ok_inside[OF a(2) t] pc r by simp
  show "table_ok k ?s" using a(3) r by (simp add: table_ok_def)
  show "once new ?s" using r c nn by (auto simp add: once_def)
  show "local_inv new ?s (gor ?s u)" if "u < N" for u
  proof (cases "u = t")
    case True
    then show ?thesis using r c nn by (simp add: local_inv_def)
  next
    case False
    then show ?thesis using others[OF that False] a(5)[OF that] r
      by (cases "at (gor s u)") (auto simp: local_inv_def pcs_def)
  qed
qed

lemma inv_ReadVal:
  assumes i: "inv k new N s" and t: "t < N" and pc: "pcs s t = ReadVal"
  shows "inv k new N
           (s\<lparr>gor := (gor s)(t := (gor s t)\<lparr>at := RefUnlock,
                 ret := lval (boxes s (loc_ref (gor s t)))\<rparr>)\<rparr>)"
    (is "inv k new N ?s")
proof (rule invI)
  note a = invD[OF i]
  have r: "loc_ref (gor s t) = 0" "nboxes s = 1" "lval (boxes s 0) \<noteq> None"
    using a(5)[OF t] pc by (simp_all add: local_inv_def pcs_def)
  have v: "lval (boxes s 0) = new 0" using a(4) r by (auto simp add: once_def)
  show "lock_ok in_mu N (mu ?s) (pcs ?s)"
    using lock_ok_outside[OF a(1), of t] pc by simp
  show "lock_ok in_box N (locked (boxes ?s 0)) (pcs ?s)"
    using lock_ok_inside[OF a(2) t, of RefUnlock] pc by simp
  show "table_ok k ?s" using a(3) r by (simp add: table_ok_def)
  show "once new ?s" using a(4) r by (simp add: once_def split: option.splits)
  show "local_inv new ?s (gor ?s u)" if "u < N" for u
    using a(5)[OF that] r v by (auto simp add: local_inv_def)
qed

lemma inv_RefUnlock:
  assumes i: "inv k new N s" and t: "t < N" and pc: "pcs s t = RefUnlock"
  shows "inv k new N
           (goto t Returned (s\<lparr>boxes := (boxes s)(loc_ref (gor s t) :=
              (boxes s (loc_ref (gor s t)))\<lparr>locked := False\<rparr>)\<rparr>))"
    (is "inv k new N ?s")
proof (rule invI)
  note a = invD[OF i]
  have r: "loc_ref (gor s t) = 0" "nboxes s = 1"
    using a(5)[OF t] pc by (simp_all add: local_inv_def pcs_def)
  show "lock_ok in_mu N (mu ?s) (pcs ?s)"
    using lock_ok_outside[OF a(1), of t] pc by simp
  show "lock_ok in_box N (locked (boxes ?s 0)) (pcs ?s)"
    using lock_ok_leave[OF a(2) t, of Returned] pc r by simp
  show "table_ok k ?s" using a(3) r by (simp add: table_ok_def)
  show "once new ?s" using a(4) r by (simp add: once_def split: option.splits)
  show "local_inv new ?s (gor ?s u)" if "u < N" for u
    using a(5)[OF that] a(5)[OF t] pc r by (auto simp add: local_inv_def pcs_def)
qed

lemma inv_step:
  assumes "inv k new N s" "t < N" "step k new t s = Some s'" "new 0 \<noteq> None"
  shows "inv k new N s'"
proof (cases "pcs s t")
  case MuLock
  then show ?thesis using assms inv_MuLock[of k new N s t]
    by (auto simp: step_def pcs_def Let_def split: if_splits)
next
  case RefLoad
  then show ?thesis using assms inv_RefLoad_ptr[of k new N s t] inv_RefLoad_raw[of k new N s t]
    by (auto simp: step_def pcs_def Let_def split: cell.splits)
next
  case RefNew
  then show ?thesis using assms inv_RefNew[of k new N s t]
    by (auto simp: step_def pcs_def Let_def)
next
  case MuUnlock
  then show ?thesis using assms inv_MuUnlock[of k new N s t]
    by (auto simp: step_def pcs_def Let_def)
next
  case RefLock
  then show ?thesis using assms inv_RefLock[of k new N s t]
    by (auto simp: step_def pcs_def Let_def split: if_splits)
next
  case TestVal
  then show ?thesis using assms inv_TestVal[of k new N s t]
    by (auto simp: step_def pcs_def Let_def split: if_splits)
next
  case CallNew
  then show ?thesis using assms inv_CallNew[of k new N s t]
    by (auto simp: step_def pcs_def Let_def)
next
  case ReadVal
  then show ?thesis using assms inv_ReadVal[of k new N s t]
    by (auto simp: step_def pcs_def Let_def)
next
  case RefUnlock
  then show ?thesis using assms inv_RefUnlock[of k new N s t]
    by (auto simp: step_def pcs_def Let_def)
next
  case Returned
  then show ?thesis using assms by (simp add: step_def pcs_def)
qed

lemma inv_exec:
  "inv k new N s \<Longrightarrow> new 0 \<noteq> None \<Longrightarrow> inv k new N (exec N k new sched s)"
proof (induction sched arbitrary: s)
  case Nil
  then show ?case by simp
next
  case (Cons t ts)
  show ?case
  proof (cases "if t < N then step k new t s else None")
    case None
    then show ?thesis using Cons by simp
  next
    case (Some s')
    then have "inv k new N s'"
      using inv_step[of k new N s t s'] Cons.prems by (simp split: if_splits)
    then show ?thesis using Cons.IH[of s'] Cons.prems(2) Some by simp
  qed
qed

lemma exec_append: "exec N k new (xs @ ys) s = exec N k new ys (exec N k new xs s)"
  by (induction xs arbitrary: s) simp_all

lemma step_calls_mono: "step k new t s = Some s' \<Longrightarrow> calls s \<le> calls s'"
  by (cases "at (gor s t)") (auto simp: step_def Let_def split: if_splits cell.splits)

lemma exec_calls_mono: "calls s \<le> calls (exec N k new sched s)"
proof (induction sched arbitrary: s)
  case Nil
  then show ?case by simp
next
  case (Cons t ts)
  show ?case
  proof (cases "if t < N then step k new t s else None")
    case None
    then show ?thesis using Cons[of s] by simp
  next
    case (Some s')
    then have "calls s \<le> calls s'" using step_calls_mono[of k new t s s'] by (simp split: if_splits)
    then show ?thesis using Cons[of s'] Some by simp
  qed
qed

lemma step_todo:
  assumes "step k new t s = Some s'"
  shows "todo (at (gor s' t)) < todo (at (gor s t)) \<and> (\<forall>u. u \<noteq> t \<longrightarrow> gor s' u = gor s u)"
  using assms
  by (cases "at (gor s t)") (auto simp: step_def Let_def split: if_splits cell.splits)

lemma step_remaining:
  assumes "step k new t s = Some s'" "t < N"
  shows "remaining N s' < remaining N s"
proof -
  note a = step_todo[OF assms(1)]
  have "(\<Sum>u\<in>{..<N}. todo (at (gor s' u))) < (\<Sum>u\<in>{..<N}. todo (at (gor s u)))"
  proof (rule sum_strict_mono_ex1)
    show "finite {..<N}" by simp
    show "\<forall>u\<in>{..<N}. todo (at (gor s' u)) \<le> todo (at (gor s u))"
      using a by (metis less_or_eq_imp_le)
    show "\<exists>u\<in>{..<N}. todo (at (gor s' u)) < todo (at (gor s u))"
      using a assms(2) by blast
  qed
  then show ?thesis by (simp add: remaining_def)
qed

lemma inv_progress:
  assumes i: "inv k new N s" and t: "t < N" and nr: "at (gor s t) \<noteq> Returned"
  shows "\<exists>u<N. \<exists>s'. step k new u s = Some s'"
proof -
  note a = invD[OF i]
  have free: "\<exists>s'. step k new u s = Some s'"
    if "at (gor s u) \<noteq> Returned" "at (gor s u) \<noteq> MuLock" "at (gor s u) \<noteq> RefLock" for u
    using that by (cases "at (gor s u)") (auto simp: step_def Let_def split: cell.splits)
  show ?thesis
  proof (cases "at (gor s t)")
    case MuLock
    show ?thesis
    proof (cases "mu s")
      case True
      then obtain u where u: "u < N" "in_mu (pcs s u)"
        using a(1) by (auto simp: lock_ok_def)
      then have "\<exists>s'. step k new u s = Some s'"
        using free[of u] by (cases "at (gor s u)") (auto simp: pcs_def)
      then show ?thesis using u(1) by blast
    next
      case False
      then have "\<exists>s'. step k new t s = Some s'"
        using MuLock by (simp add: step_def)
      then show ?thesis using t by blast
    qed
  next
    case RefLock
    then have r: "loc_ref (gor s t) = 0"
      using a(5)[OF t] by (simp add: local_inv_def)
    show ?thesis
    proof (cases "locked (boxes s 0)")
      case True
      then obtain u where u: "u < N" "in_box (pcs s u)"
        using a(2) by (auto simp: lock_ok_def)
      then have "\<exists>s'. step k new u s = Some s'"
        using free[of u] by (cases "at (gor s u)") (auto simp: pcs_def)
      then show ?thesis using u(1) by blast
    next
      case False
      then have "\<exists>s'. step k new t s = Some s'"
        using RefLock r by (simp add: step_def)
      then show ?thesis using t by blast
    qed
  qed (use free[of t] nr t in auto)
qed

subsection \<open>A goroutine that runs alone\<close>

text \<open>
  With no other goroutine at work and every mutex free, the statements of one
  goroutine, run to the end, do what the sequential \<^verbatim>\<open>Ref\<close> does.
\<close>

lemma nine: "replicate 9 t = [t, t, t, t, t, t, t, t, t]"
  by (simp add: eval_nat_numeral)

lemma Ref_alone:
  assumes a: "abstracts a s h" and m: "\<not> mu s" and b: "\<forall>r. \<not> locked (boxes s r)"
    and l: "at (gor s t) = MuLock" and t: "t < N"
  shows "case KVMap_Ref (Some a) k (\<lambda>_. new (calls s)) h of (v, called, h') \<Rightarrow>
           (let s' = exec N k new (replicate 9 t) s in
              at (gor s' t) = Returned \<and> ret (gor s' t) = v \<and> abstracts a s' h'
              \<and> calls s' = (if called then Suc (calls s) else calls s)
              \<and> \<not> mu s' \<and> (\<forall>r. \<not> locked (boxes s' r)))"
proof (cases "index (kvmap s) k")
  case (Raw v)
  show ?thesis
  proof (cases v)
    case None
    show ?thesis
      using a m b l t Raw None
      by (simp add: nine KVMap_Ref_def ref_def step_def goto_def Let_def abstracts_def index_put)
  next
    case (Some x)
    show ?thesis
      using a m b l t Raw Some
      by (simp add: nine KVMap_Ref_def ref_def step_def goto_def Let_def abstracts_def index_put)
  qed
next
  case (KvRefPtr r)
  show ?thesis
  proof (cases "lval (boxes s r)")
    case None
    show ?thesis
      using a m b l t KvRefPtr None
      by (simp add: nine KVMap_Ref_def ref_def step_def goto_def Let_def abstracts_def index_put)
  next
    case (Some x)
    show ?thesis
      using a m b l t KvRefPtr Some
      by (simp add: nine KVMap_Ref_def ref_def step_def goto_def Let_def abstracts_def index_put)
  qed
qed

subsection \<open>All interleavings\<close>

text \<open>
  Claim C1, amended. \<open>N\<close> goroutines call \<^verbatim>\<open>Ref(k, new)\<close> on a fresh non-nil store, and
  the first call of the initializer returns a non-nil value. Then, in every state that
  any interleaving reaches: the initializer was called at most once; every call that
  has returned returned the value of that one call; a box that holds a value keeps it,
  and the initializer is not called again; and while a call has not returned, some
  goroutine can take a step, each step reducing the number of statements left to run,
  so that every interleaving ends with all \<open>N\<close> calls returned.
\<close>

theorem Ref_concurrent_once:
  fixes k :: 'k and new :: "nat \<Rightarrow> 'v option"
  assumes "new 0 \<noteq> None"
  shows "let s = exec N k new sched fresh in
           calls s \<le> 1
         \<and> (\<forall>t<N. at (gor s t) = Returned \<longrightarrow> ret (gor s t) = new 0 \<and> calls s = 1)
         \<and> (\<forall>more. lval (boxes s 0) \<noteq> None \<longrightarrow>
               lval (boxes (exec N k new more s) 0) = lval (boxes s 0)
               \<and> calls (exec N k new more s) = calls s)
         \<and> ((\<exists>t<N. at (gor s t) \<noteq> Returned) \<longrightarrow>
               (\<exists>u<N. \<exists>s'. step k new u s = Some s' \<and> remaining N s' < remaining N s))"
proof -
  define s where "s = exec N k new sched (fresh :: ('k, 'v) shared)"
  have i: "inv k new N s"
    unfolding s_def by (rule inv_exec) (rule inv_fresh, rule assms)
  note a = invD[OF i]
  have c: "calls s \<le> 1"
    using a(4) by (auto simp: once_def split: option.splits)
  have r: "ret (gor s t) = new 0 \<and> calls s = 1" if "t < N" "at (gor s t) = Returned" for t
    using a(5)[OF that(1)] that(2) a(4) assms by (auto simp: local_inv_def once_def split: option.splits)
  have m: "lval (boxes (exec N k new more s) 0) = lval (boxes s 0)
           \<and> calls (exec N k new more s) = calls s" if "lval (boxes s 0) \<noteq> None" for more
  proof -
    have i2: "inv k new N (exec N k new more s)"
      by (rule inv_exec) (rule i, rule assms)
    have "calls s = 1" "lval (boxes s 0) = new 0"
      using a(4) that by (auto simp: once_def split: option.splits)
    moreover have "calls s \<le> calls (exec N k new more s)"
      by (rule exec_calls_mono)
    ultimately show ?thesis
      using invD(4)[OF i2] by (auto simp: once_def split: option.splits)
  qed
  have p: "\<exists>u<N. \<exists>s'. step k new u s = Some s' \<and> remaining N s' < remaining N s"
    if "\<exists>t<N. at (gor s t) \<noteq> Returned"
  proof -
    from that obtain t where "t < N" "at (gor s t) \<noteq> Returned" by blast
    then obtain u s' where "u < N" "step k new u s = Some s'"
      using inv_progress[OF i] by blast
    then show ?thesis using step_remaining[of k new u s s' N] by blast
  qed
  show ?thesis
    unfolding Let_def s_def[symmetric] using c r m p by blast
qed

text \<open>
  Two goroutines interleaved: the first creates the box, the second calls the
  initializer while the first waits for the mutex of the box, and both return 7, the
  value of that one call. After the first two moments of the schedule the second
  goroutine is blocked on the mutex of the map, which the first holds.
\<close>

theorem Ref_concurrent_once_witness:
  "seven_init 0 \<noteq> None
   \<and> (let s = exec 2 (0::nat) seven_init [0,1,0,0,0,1,1,1,1,1,0,1,1,1,0,0,0,0] fresh in
        calls s = 1 \<and> at (gor s 0) = Returned \<and> at (gor s 1) = Returned
        \<and> ret (gor s 0) = Some 7 \<and> ret (gor s 1) = Some 7 \<and> lval (boxes s 0) = Some 7)
   \<and> (let s = exec 2 (0::nat) seven_init [0,1] fresh in
        at (gor s 1) \<noteq> Returned \<and> step 0 seven_init 1 s = None \<and> step 0 seven_init 0 s \<noteq> None)"
  using Ref_concurrent_once[of seven_init 2 "0::nat" "[0,1,0,0,0,1,1,1,1,1,0,1,1,1,0,0,0,0]"]
    Ref_concurrent_once[of seven_init 2 "0::nat" "[0,1]"]
  by (simp add: step_def goto_def fresh_def index_def put_def zeroKVMap_def Let_def seven_init_def)

text \<open>
  Claim C1 as stated fails for an initializer that returns nil: two calls of
  \<^verbatim>\<open>Ref\<close> on a fresh store, one after the other, call it twice.
\<close>

theorem Ref_nil_init_called_twice:
  "calls (exec 2 (0::nat) nil_init [0,0,0,0,0,0,0,0,0,1,1,1,1,1,1,1,1,1] fresh) = 2"
  by (simp add: step_def goto_def fresh_def index_def put_def zeroKVMap_def Let_def nil_init_def)

section \<open>Properties of the agent\<close>

subsection \<open>Codec selection\<close>

lemma codecHandles_entries_eq:
  "codecHandles_entries =
     [(''cbor'', Some CborHandle), (''json'', Some (JsonHandle 2 True)),
      (''msgpack'', Some MsgpackHandle), ([], Some (JsonHandle 2 True))]"
  by (simp add: codecHandles_entries_def at_key_def DefaultCodec_def)

lemma CodecNames_eq: "CodecNames = [''cbor'', ''json'', ''msgpack'']"
  by (simp add: CodecNames_def CodecNames_from_def codecHandles_entries_eq)

lemma CodecNamesStr_eq: "CodecNamesStr = ''cbor, json or msgpack''"
  by (simp add: CodecNamesStr_def CodecNames_eq Let_def)

lemma codecHandles_None_iff:
  "codecHandles c = None \<longleftrightarrow> c \<notin> {[], ''cbor'', ''json'', ''msgpack''}"
  by (simp add: codecHandles_def at_key_def codecHandles_entries_eq)

lemma codecHandles_Default: "codecHandles DefaultCodec = Some (JsonHandle 2 True)"
  by (simp add: codecHandles_def at_key_def codecHandles_entries_eq DefaultCodec_def)

lemma CodecNames_from_any_order:
  assumes "distinct ks" "set ks = fst ` set codecHandles_entries"
  shows "CodecNames_from ks = CodecNames"
proof -
  have "sorted (CodecNames_from ks)" "distinct (CodecNames_from ks)"
    using assms(1) by (simp_all add: CodecNames_from_def)
  moreover have "sorted CodecNames" "distinct CodecNames"
    by (simp_all add: CodecNames_eq)
  moreover have "set (CodecNames_from ks) = set CodecNames"
    using assms(2) by (auto simp add: CodecNames_from_def CodecNames_eq codecHandles_entries_eq)
  ultimately show ?thesis
    using sorted_distinct_set_unique by blast
qed

lemma NewAgent_cases:
  assumes "NewAgent d e cfg = (ag, err)"
  shows "codecHandles (Codec cfg) = None \<Longrightarrow>
           err = Some (''Invalid codec '' @ quote @ Codec cfg @ quote @ ''. Expected cbor, json or msgpack'')
           \<and> handle ag = codecHandles DefaultCodec"
    and "codecHandles (Codec cfg) \<noteq> None \<Longrightarrow> err = None \<and> handle ag = codecHandles (Codec cfg)"
    and "Name ag = AgentName cfg" and "\<not> sd_closed ag" and "trace ag = []"
  using assms
  by (auto simp add: NewAgent_def Let_def CodecNamesStr_eq split: prod.splits if_splits)

text \<open>
  Claim C5. The recognized codec names are the empty string, \<open>cbor\<close>, \<open>json\<close> and
  \<open>msgpack\<close>. For any other name \<^verbatim>\<open>NewAgent\<close> returns the error
  \<open>Invalid codec '<name>'. Expected cbor, json or msgpack\<close> and an agent that uses the
  handle of the default codec; for a recognized name it returns no error and the handle
  of that name. In both cases the agent has a handle and has not been shut down. The
  names in the error are the sorted non-empty keys of \<^verbatim>\<open>codecHandles\<close>, joined as
  \<open>a, b or c\<close>.
\<close>

theorem NewAgent_codec:
  "case (NewAgent d e cfg :: ('s, 'r, 'rq) Agent \<times> string option) of (ag, err) \<Rightarrow>
     (codecHandles (Codec cfg) = None \<longleftrightarrow> Codec cfg \<notin> {[], ''cbor'', ''json'', ''msgpack''})
   \<and> (codecHandles (Codec cfg) = None \<longrightarrow>
         err = Some (''Invalid codec '' @ quote @ Codec cfg @ quote @ ''. Expected cbor, json or msgpack'')
         \<and> handle ag = codecHandles DefaultCodec)
   \<and> (codecHandles (Codec cfg) \<noteq> None \<longrightarrow> err = None \<and> handle ag = codecHandles (Codec cfg))
   \<and> handle ag \<noteq> None
   \<and> Name ag = AgentName cfg
   \<and> \<not> sd_closed ag
   \<and> trace ag = []
   \<and> codecHandles DefaultCodec = Some (JsonHandle 2 True)
   \<and> set CodecNames = {c. c \<noteq> [] \<and> codecHandles c \<noteq> None}
   \<and> CodecNames = [''cbor'', ''json'', ''msgpack'']
   \<and> CodecNamesStr = ''cbor, json or msgpack''"
proof -
  obtain ag err where x: "(NewAgent d e cfg :: ('s, 'r, 'rq) Agent \<times> string option) = (ag, err)"
    by (cases "NewAgent d e cfg :: ('s, 'r, 'rq) Agent \<times> string option") auto
  note c = NewAgent_cases[OF x]
  have h: "handle ag \<noteq> None"
    using c(1,2) by (cases "codecHandles (Codec cfg)") (auto simp: codecHandles_Default)
  have n: "set CodecNames = {c. c \<noteq> [] \<and> codecHandles c \<noteq> None}"
    by (auto simp: CodecNames_eq codecHandles_None_iff)
  have i: "codecHandles (Codec cfg) = None \<longleftrightarrow> Codec cfg \<notin> {[], ''cbor'', ''json'', ''msgpack''}"
    by (rule codecHandles_None_iff)
  have main: "(codecHandles (Codec cfg) = None \<longleftrightarrow> Codec cfg \<notin> {[], ''cbor'', ''json'', ''msgpack''})
   \<and> (codecHandles (Codec cfg) = None \<longrightarrow>
         err = Some (''Invalid codec '' @ quote @ Codec cfg @ quote @ ''. Expected cbor, json or msgpack'')
         \<and> handle ag = codecHandles DefaultCodec)
   \<and> (codecHandles (Codec cfg) \<noteq> None \<longrightarrow> err = None \<and> handle ag = codecHandles (Codec cfg))
   \<and> handle ag \<noteq> None
   \<and> Name ag = AgentName cfg
   \<and> \<not> sd_closed ag
   \<and> trace ag = []
   \<and> codecHandles DefaultCodec = Some (JsonHandle 2 True)
   \<and> set CodecNames = {c. c \<noteq> [] \<and> codecHandles c \<noteq> None}
   \<and> CodecNames = [''cbor'', ''json'', ''msgpack'']
   \<and> CodecNamesStr = ''cbor, json or msgpack''"
    by (intro conjI impI i c h n codecHandles_Default CodecNames_eq CodecNamesStr_eq)
  show ?thesis unfolding x prod.case by (rule main)
qed

text \<open>
  The codec names \<open>yaml\<close> (not recognized), \<open>msgpack\<close> and the empty name.
\<close>

theorem NewAgent_codec_witness:
  "codecHandles ''yaml'' = None
   \<and> (case (NewAgent ([], [], []) []
             \<lparr>AgentName = ''margo'', Codec = ''yaml'', Stdin = None, Stdout = None, Stderr = None\<rparr>
             :: (unit, unit, unit) Agent \<times> string option)
       of (ag, err) \<Rightarrow>
         err = Some (''Invalid codec '' @ quote @ ''yaml'' @ quote @ ''. Expected cbor, json or msgpack'')
         \<and> handle ag = Some (JsonHandle 2 True))
   \<and> codecHandles ''msgpack'' \<noteq> None
   \<and> (case (NewAgent ([], [], []) []
             \<lparr>AgentName = ''margo'', Codec = ''msgpack'', Stdin = None, Stdout = None, Stderr = None\<rparr>
             :: (unit, unit, unit) Agent \<times> string option)
       of (ag, err) \<Rightarrow> err = None \<and> handle ag = Some MsgpackHandle)
   \<and> codecHandles [] \<noteq> None
   \<and> (case (NewAgent ([], [], []) []
             \<lparr>AgentName = ''margo'', Codec = [], Stdin = None, Stdout = None, Stderr = None\<rparr>
             :: (unit, unit, unit) Agent \<times> string option)
       of (ag, err) \<Rightarrow> err = None \<and> handle ag = Some (JsonHandle 2 True))"
  using NewAgent_codec[where d = "([], [], []) :: unit list \<times> unit list \<times> unit list"
      and e = "[]" and cfg =
      "\<lparr>AgentName = ''margo'', Codec = ''yaml'', Stdin = None :: unit option, Stdout = None,
        Stderr = None\<rparr>", where ?'rq = unit]
    NewAgent_codec[where d = "([], [], []) :: unit list \<times> unit list \<times> unit list"
      and e = "[]" and cfg =
      "\<lparr>AgentName = ''margo'', Codec = ''msgpack'', Stdin = None :: unit option, Stdout = None,
        Stderr = None\<rparr>", where ?'rq = unit]
    NewAgent_codec[where d = "([], [], []) :: unit list \<times> unit list \<times> unit list"
      and e = "[]" and cfg =
      "\<lparr>AgentName = ''margo'', Codec = [], Stdin = None :: unit option, Stdout = None,
        Stderr = None\<rparr>", where ?'rq = unit]
  by (simp add: NewAgent_def Let_def CodecNamesStr_eq codecHandles_def at_key_def
      codecHandles_entries_eq DefaultCodec_def)

subsection \<open>The decode loop\<close>

lemma decode_loop_returns:
  assumes "\<forall>j. i \<le> j \<and> j < n \<longrightarrow> is_request (dec j)" "dec n = Failure err" "i \<le> n"
  shows "decode_loop dec i ag
           = Some ((if err = EOF then None else Some (Err (''ipc.decode: '' @ Error_text err))), ag\<lparr>trace := trace ag @ map HandleReq (requests dec i n)\<rparr>)"
  using assms
proof (induction "n - i" arbitrary: i ag)
  case 0
  then have "i = n" by simp
  then show ?case using 0
    by (subst decode_loop.simps) (simp add: requests_def)
next
  case (Suc d)
  then have lt: "i < n" by simp
  then obtain rq where rq: "dec i = Request rq"
    using Suc.prems(1) by (cases "dec i") (auto simp: is_request_def)
  have "decode_loop dec (Suc i) (handleReq rq ag)
          = Some ((if err = EOF then None else Some (Err (''ipc.decode: '' @ Error_text err))),
                  (handleReq rq ag)\<lparr>trace := trace (handleReq rq ag) @ map HandleReq (requests dec (Suc i) n)\<rparr>)"
    using Suc.hyps(1)[of "Suc i" "handleReq rq ag"] Suc.hyps(2) Suc.prems lt by simp
  moreover have "requests dec i n = rq # requests dec (Suc i) n"
    using lt rq by (simp add: requests_def upt_conv_Cons)
  ultimately show ?case
    by (subst decode_loop.simps) (simp add: rq handleReq_def)
qed

lemma decode_loop_Some_fails:
  assumes "decode_loop dec i ag = Some r"
  shows "\<exists>n\<ge>i. \<not> is_request (dec n)"
proof (rule decode_loop.raw_induct[where P = "\<lambda>dec i ag r. \<exists>n\<ge>i. \<not> is_request (dec n)", OF _ assms],
    goal_cases)
  case (1 f dec i ag r)
  show ?case
  proof (cases "dec i")
    case (Request rq)
    then have "f dec (Suc i) (handleReq rq ag) = Some r" using 1(2) by simp
    then obtain n where "n \<ge> Suc i" "\<not> is_request (dec n)"
      using 1(1) by blast
    then show ?thesis using Suc_leD by blast
  next
    case (Failure e)
    then show ?thesis by (auto simp: is_request_def)
  qed
qed

lemma first_failure_exists:
  assumes "\<not> is_request (dec m)"
  shows "\<exists>n err. first_failure dec n err"
proof -
  define n where "n = (LEAST j. \<not> is_request (dec j))"
  have a: "\<not> is_request (dec n)"
    unfolding n_def using assms by (rule LeastI)
  have b: "is_request (dec j)" if "j < n" for j
    using that not_less_Least unfolding n_def by blast
  obtain err where "dec n = Failure err"
    using a by (cases "dec n") (auto simp: is_request_def)
  then show ?thesis using b by (auto simp: first_failure_def)
qed

lemma first_failure_unique:
  assumes "first_failure dec n err" "first_failure dec m err'"
  shows "n = m \<and> err = err'"
proof -
  have "is_request (dec n)" if "n < m"
    using assms(2) that by (simp add: first_failure_def)
  moreover have "is_request (dec m)" if "m < n"
    using assms(1) that by (simp add: first_failure_def)
  moreover have "\<not> is_request (dec n)" "\<not> is_request (dec m)"
    using assms by (simp_all add: first_failure_def is_request_def)
  ultimately have "n = m" using nat_neq_iff by blast
  then show ?thesis using assms by (simp add: first_failure_def)
qed

lemma communicate_first_failure:
  assumes "first_failure dec n err"
  shows "communicate dec ag
           = Some ((if err = EOF then None else Some (Err (''ipc.decode: '' @ Error_text err))),
                   ag\<lparr>trace := trace ag @ [LogPrintln ''started'', Dispatch Started, StoreReady]
                                   @ map HandleReq (requests dec 0 n)\<rparr>)"
  using assms decode_loop_returns[of 0 n dec err
      "ag\<lparr>trace := trace ag @ [LogPrintln ''started'', Dispatch Started, StoreReady]\<rparr>"]
  by (simp add: communicate_def first_failure_def)

lemma communicate_Some_first_failure:
  assumes "communicate dec ag = Some r"
  shows "\<exists>n err. first_failure dec n err"
  using decode_loop_Some_fails[OF assms[unfolded communicate_def]] first_failure_exists by blast

lemma shutdown_open:
  assumes "\<not> sd_closed ag"
  shows "shutdown panics ag
           = (\<exists>d\<in>set (defer_all shutdown_defers). panics d,
              ag\<lparr>sd_closed := True,
                 trace := trace ag @ [StdinClose, WgWait, Dispatch Shutdown, StdoutClose, CloseDone]\<rparr>)"
  using assms by (simp add: shutdown_def defer_all_def shutdown_defers_def)

lemma Run_first_failure:
  assumes "first_failure dec n err"
  shows "Run panics dec ag
           = Some (if \<not> sd_closed ag \<and> (\<exists>d\<in>set shutdown_steps. panics d) then Panic
                   else Return (if err = EOF then None
                                else Some (Err (''ipc.decode: '' @ Error_text err))),
                   ag\<lparr>sd_closed := True,
                      trace := trace ag @ [LogPrintln ''started'', Dispatch Started, StoreReady]
                                 @ map HandleReq (requests dec 0 n)
                                 @ (if sd_closed ag then [] else shutdown_steps)\<rparr>)"
proof (cases "sd_closed ag")
  case True
  then show ?thesis
    using communicate_first_failure[OF assms, of ag]
    by (simp add: Run_def shutdown_def)
next
  case False
  then show ?thesis
    using communicate_first_failure[OF assms, of ag]
    by (simp add: Run_def shutdown_open shutdown_steps_def defer_all_def shutdown_defers_def)
qed

lemma communicate_None_iff:
  "communicate dec ag = None \<longleftrightarrow> (\<forall>i. is_request (dec i))"
proof
  assume n: "communicate dec ag = None"
  show "\<forall>i. is_request (dec i)"
  proof (rule ccontr)
    assume "\<not> (\<forall>i. is_request (dec i))"
    then obtain m where "\<not> is_request (dec m)" by blast
    then obtain k err where "first_failure dec k err"
      using first_failure_exists by blast
    then show False using communicate_first_failure[of dec k err ag] n by simp
  qed
next
  assume a: "\<forall>i. is_request (dec i)"
  show "communicate dec ag = None"
  proof (cases "communicate dec ag")
    case (Some r)
    then obtain k err where "first_failure dec k err"
      using communicate_Some_first_failure by blast
    then have "\<not> is_request (dec k)" by (simp add: first_failure_def is_request_def)
    then show ?thesis using a by blast
  qed simp
qed

text \<open>
  Claim C6. \<^verbatim>\<open>communicate\<close> returns nil exactly when the first \<^verbatim>\<open>Decode\<close> that fails,
  fails with \<^verbatim>\<open>io.EOF\<close>, and it does not return when no \<^verbatim>\<open>Decode\<close> fails. When the
  first failure is another error, \<^verbatim>\<open>Run\<close> returns that error wrapped as
  \<open>ipc.decode: <text>\<close>, after handling the requests decoded before it. In every case the
  deferred shutdown has run when \<^verbatim>\<open>Run\<close> ends: its five steps close the trace, unless
  the agent was shut down before. (If one of the deferred calls panics, \<^verbatim>\<open>Run\<close>
  ends panicking instead of returning.)
\<close>

theorem Run_decode_failure:
  "((\<exists>ag'. communicate dec ag = Some (None, ag')) \<longleftrightarrow> (\<exists>n. first_failure dec n EOF))
   \<and> (communicate dec ag = None \<longleftrightarrow> (\<forall>i. is_request (dec i)))
   \<and> (\<forall>n err. first_failure dec n err \<longrightarrow>
         Run panics dec ag
           = Some (if \<not> sd_closed ag \<and> (\<exists>d\<in>set shutdown_steps. panics d) then Panic
                   else Return (if err = EOF then None
                                else Some (Err (''ipc.decode: '' @ Error_text err))),
                   ag\<lparr>sd_closed := True,
                      trace := trace ag @ [LogPrintln ''started'', Dispatch Started, StoreReady]
                                 @ map HandleReq (requests dec 0 n)
                                 @ (if sd_closed ag then [] else shutdown_steps)\<rparr>))"
proof (intro conjI allI impI)
  show "(\<exists>ag'. communicate dec ag = Some (None, ag')) \<longleftrightarrow> (\<exists>n. first_failure dec n EOF)"
  proof
    assume "\<exists>ag'. communicate dec ag = Some (None, ag')"
    then obtain ag' where c: "communicate dec ag = Some (None, ag')" by blast
    then obtain n err where f: "first_failure dec n err"
      using communicate_Some_first_failure by blast
    have "err = EOF"
      using communicate_first_failure[OF f, of ag] c by (simp split: if_splits)
    then show "\<exists>n. first_failure dec n EOF" using f by blast
  next
    assume "\<exists>n. first_failure dec n EOF"
    then obtain n where "first_failure dec n EOF" by blast
    then show "\<exists>ag'. communicate dec ag = Some (None, ag')"
      using communicate_first_failure[of dec n EOF ag] by simp
  qed
  show "communicate dec ag = None \<longleftrightarrow> (\<forall>i. is_request (dec i))"
    by (rule communicate_None_iff)
next
  fix n err
  assume "first_failure dec n err"
  then show "Run panics dec ag
           = Some (if \<not> sd_closed ag \<and> (\<exists>d\<in>set shutdown_steps. panics d) then Panic
                   else Return (if err = EOF then None
                                else Some (Err (''ipc.decode: '' @ Error_text err))),
                   ag\<lparr>sd_closed := True,
                      trace := trace ag @ [LogPrintln ''started'', Dispatch Started, StoreReady]
                                 @ map HandleReq (requests dec 0 n)
                                 @ (if sd_closed ag then [] else shutdown_steps)\<rparr>)"
    by (rule Run_first_failure)
qed

text \<open>
  Two requests followed by a broken message, and two requests followed by the end of
  the stream.
\<close>

theorem Run_decode_failure_witness:
  "first_failure breaks_after_two 2 (Err ''unexpected EOF'')
   \<and> Run no_panic breaks_after_two json_agent
       = Some (Return (Some (Err ''ipc.decode: unexpected EOF'')),
               json_agent\<lparr>sd_closed := True,
                 trace := [LogPrintln ''started'', Dispatch Started, StoreReady,
                           HandleReq ''rq'', HandleReq ''rq'',
                           StdinClose, WgWait, Dispatch Shutdown, StdoutClose, CloseDone]\<rparr>)
   \<and> first_failure ends_after_two 2 EOF
   \<and> Run no_panic ends_after_two json_agent
       = Some (Return None,
               json_agent\<lparr>sd_closed := True,
                 trace := [LogPrintln ''started'', Dispatch Started, StoreReady,
                           HandleReq ''rq'', HandleReq ''rq'',
                           StdinClose, WgWait, Dispatch Shutdown, StdoutClose, CloseDone]\<rparr>)
   \<and> communicate ends_after_two json_agent
       = Some (None, json_agent\<lparr>trace := [LogPrintln ''started'', Dispatch Started, StoreReady,
                                           HandleReq ''rq'', HandleReq ''rq'']\<rparr>)"
proof -
  have f1: "first_failure breaks_after_two 2 (Err ''unexpected EOF'')"
    by (simp add: first_failure_def is_request_def breaks_after_two_def)
  have f2: "first_failure ends_after_two 2 EOF"
    by (simp add: first_failure_def is_request_def ends_after_two_def)
  have r1: "requests breaks_after_two 0 2 = [''rq'', ''rq'']"
    by (simp add: requests_def breaks_after_two_def upt_rec numeral_2_eq_2)
  have r2: "requests ends_after_two 0 2 = [''rq'', ''rq'']"
    by (simp add: requests_def ends_after_two_def upt_rec numeral_2_eq_2)
  have c: "communicate ends_after_two json_agent
       = Some (None, json_agent\<lparr>trace := [LogPrintln ''started'', Dispatch Started, StoreReady,
                                           HandleReq ''rq'', HandleReq ''rq'']\<rparr>)"
    using communicate_first_failure[OF f2, of json_agent] by (simp add: r2 json_agent_def)
  show ?thesis
    using Run_decode_failure[where dec = breaks_after_two and ag = json_agent and panics = no_panic]
      Run_decode_failure[where dec = ends_after_two and ag = json_agent and panics = no_panic]
      f1 f2 c
    by (simp add: r1 r2 json_agent_def no_panic_def shutdown_steps_def)
qed

subsection \<open>Shutdown\<close>

lemma defer_all_shutdown: "defer_all shutdown_defers = (shutdown_steps :: 'rq event list)"
  by (simp add: defer_all_def shutdown_defers_def shutdown_steps_def)

lemma run_deferred_trace:
  "run_deferred panics stack (p, ag)
     = (p \<or> (\<exists>d\<in>set stack. panics d), ag\<lparr>trace := trace ag @ stack\<rparr>)"
  by (induction stack arbitrary: p ag) auto

lemma shutdown_eq:
  "shutdown panics ag =
     (if sd_closed ag then (False, ag)
      else (\<exists>d\<in>set shutdown_steps. panics d,
            ag\<lparr>sd_closed := True, trace := trace ag @ shutdown_steps\<rparr>))"
  by (simp add: shutdown_def defer_all_shutdown run_deferred_trace)

lemma sd_goto_simps [simp]:
  "sd_gor (sd_goto t l s) = (sd_gor s)(t := (sd_gor s t)\<lparr>sd_at := l\<rparr>)"
  "sd_mu (sd_goto t l s) = sd_mu s"
  "closed (sd_goto t l s) = closed s"
  "ran (sd_goto t l s) = ran s"
  by (simp_all add: sd_goto_def)

lemma sd_pcs_upd:
  "sd_gor s' = (sd_gor s)(t := g) \<Longrightarrow> sd_pcs s' = (sd_pcs s)(t := sd_at g)"
  by (rule ext) (simp add: sd_pcs_def)

lemma sd_local_cong:
  "closed s' = closed s \<Longrightarrow> ran s' = ran s \<Longrightarrow> sd_local s' l = sd_local s l"
  by (cases l) simp_all

lemma sd_inv_init: "sd_inv N sd_init"
  by (simp add: sd_inv_def lock_ok_def sd_pcs_def sd_init_def)

lemma sd_invD:
  assumes "sd_inv N s"
  shows "lock_ok in_sd N (sd_mu s) (sd_pcs s)"
    "\<not> closed s \<Longrightarrow> ran s = []"
    "closed s \<Longrightarrow> ran s = shutdown_steps \<or> (\<exists>t<N. is_deferred (sd_pcs s t))"
    "\<And>u. u < N \<Longrightarrow> sd_local s (sd_pcs s u)"
  using assms by (simp_all add: sd_inv_def)

lemma sd_invI:
  "lock_ok in_sd N (sd_mu s) (sd_pcs s) \<Longrightarrow> (\<not> closed s \<Longrightarrow> ran s = [])
   \<Longrightarrow> (closed s \<Longrightarrow> ran s = shutdown_steps \<or> (\<exists>t<N. is_deferred (sd_pcs s t)))
   \<Longrightarrow> (\<And>u. u < N \<Longrightarrow> sd_local s (sd_pcs s u)) \<Longrightarrow> sd_inv N s"
  by (simp add: sd_inv_def)

text \<open>While a goroutine is inside, every other one is before the lock or has returned.\<close>

lemma sd_others_outside:
  assumes "lock_ok in_sd N b l" "t < N" "in_sd (l t)" "u < N" "u \<noteq> t"
  shows "l u = SdLock \<or> l u = SdReturned"
proof -
  have "\<not> in_sd (l u)" using lock_ok_unique[OF assms(1,4,2)] assms(3,5) by blast
  then show ?thesis by (cases "l u") simp_all
qed

lemma sd_inv_step:
  assumes i: "sd_inv N s" and t: "t < N" and st: "sd_step panics t s = Some s'"
  shows "sd_inv N s'"
proof -
  note a = sd_invD[OF i]
  let ?l = "sd_pcs s"
  have lt: "sd_local s (?l t)" using a(4)[OF t] .
  have out: "?l u = SdLock \<or> ?l u = SdReturned" if "in_sd (?l t)" "u < N" "u \<noteq> t" for u
    using sd_others_outside[OF a(1) t that(1,2,3)] .
  show ?thesis
  proof (cases "?l t")
    case SdLock
    then have s': "s' = sd_goto t SdTest (s\<lparr>sd_mu := True\<rparr>)" and free: "\<not> sd_mu s"
      using st by (auto simp: sd_step_def sd_pcs_def Let_def split: if_splits)
    have p: "sd_pcs s' = ?l(t := SdTest)" unfolding s' by (rule ext) (simp add: sd_pcs_def)
    have same: "sd_local s' l = sd_local s l" for l
      by (rule sd_local_cong) (simp_all add: s')
    show ?thesis
    proof (rule sd_invI)
      show "lock_ok in_sd N (sd_mu s') (sd_pcs s')"
        unfolding p using lock_ok_enter[of in_sd N ?l t SdTest] a(1) t free by (simp add: s')
      show "ran s' = []" if "\<not> closed s'" using a(2) that by (simp add: s')
      show "ran s' = shutdown_steps \<or> (\<exists>t<N. is_deferred (sd_pcs s' t))" if "closed s'"
      proof -
        have "ran s = shutdown_steps \<or> (\<exists>u<N. is_deferred (?l u))"
          using a(3) that by (simp add: s')
        moreover have "is_deferred ((?l(t := SdTest)) u)" if "is_deferred (?l u)" for u
          using that SdLock by (cases "u = t") simp_all
        moreover have "ran s' = ran s" by (simp add: s')
        ultimately show ?thesis unfolding p by metis
      qed
      show "sd_local s' (sd_pcs s' u)" if "u < N" for u
        unfolding p using a(4)[OF that] by (simp add: same)
    qed
  next
    case SdTest
    then have s': "s' = sd_goto t (if closed s then SdUnlock else SdMark) s"
      using st by (auto simp: sd_step_def sd_pcs_def Let_def)
    have p: "sd_pcs s' = ?l(t := (if closed s then SdUnlock else SdMark))"
      unfolding s' by (rule ext) (simp add: sd_pcs_def)
    have same: "sd_local s' l = sd_local s l" for l
      by (rule sd_local_cong) (simp_all add: s')
    have nodef: "\<not> is_deferred (?l u)" if "u < N" for u
      using out[of u] SdTest that by (cases "u = t") auto
    have full: "ran s = shutdown_steps" if "closed s"
      using a(3)[OF that] nodef by blast
    show ?thesis
    proof (rule sd_invI)
      show "lock_ok in_sd N (sd_mu s') (sd_pcs s')"
        unfolding p using lock_ok_inside[OF a(1) t, of "if closed s then SdUnlock else SdMark"] SdTest
        by (simp add: s')
      show "ran s' = []" if "\<not> closed s'" using a(2) that by (simp add: s')
      show "ran s' = shutdown_steps \<or> (\<exists>t<N. is_deferred (sd_pcs s' t))" if "closed s'"
        using full that by (simp add: s')
      show "sd_local s' (sd_pcs s' u)" if "u < N" for u
        unfolding p using a(4)[OF that] a(2) full by (auto simp add: same)
    qed
  next
    case SdMark
    then have s': "s' = sd_goto t (SdDeferred (defer_all shutdown_defers)) (s\<lparr>closed := True\<rparr>)"
      using st by (auto simp: sd_step_def sd_pcs_def Let_def)
    have p: "sd_pcs s' = ?l(t := SdDeferred shutdown_steps)"
      unfolding s' by (rule ext) (simp add: sd_pcs_def defer_all_shutdown)
    have m: "\<not> closed s" "ran s = []" using lt SdMark by simp_all
    have others: "?l u = SdLock" if "u < N" "u \<noteq> t" for u
      using out[OF _ that] a(4)[OF that(1)] SdMark m by auto
    show ?thesis
    proof (rule sd_invI)
      show "lock_ok in_sd N (sd_mu s') (sd_pcs s')"
        unfolding p using lock_ok_inside[OF a(1) t, of "SdDeferred shutdown_steps"] SdMark
        by (simp add: s')
      show "ran s' = []" if "\<not> closed s'" using that by (simp add: s')
      show "ran s' = shutdown_steps \<or> (\<exists>t<N. is_deferred (sd_pcs s' t))" if "closed s'"
        unfolding p using t by auto
      show "sd_local s' (sd_pcs s' u)" if "u < N" for u
        unfolding p using others[OF that] m by (cases "u = t") (simp_all add: s')
    qed
  next
    case (SdDeferred stack)
    show ?thesis
    proof (cases stack)
      case Nil
      then have s': "s' = sd_goto t SdUnlock s"
        using st SdDeferred by (auto simp: sd_step_def sd_pcs_def Let_def)
      have p: "sd_pcs s' = ?l(t := SdUnlock)" unfolding s' by (rule ext) (simp add: sd_pcs_def)
    have same: "sd_local s' l = sd_local s l" for l
      by (rule sd_local_cong) (simp_all add: s')
      have m: "closed s" "ran s = shutdown_steps" using lt SdDeferred Nil by simp_all
      show ?thesis
      proof (rule sd_invI)
        show "lock_ok in_sd N (sd_mu s') (sd_pcs s')"
          unfolding p using lock_ok_inside[OF a(1) t, of SdUnlock] SdDeferred by (simp add: s')
        show "ran s' = []" if "\<not> closed s'" using that m by (simp add: s')
        show "ran s' = shutdown_steps \<or> (\<exists>t<N. is_deferred (sd_pcs s' t))" if "closed s'"
          using m by (simp add: s')
        show "sd_local s' (sd_pcs s' u)" if "u < N" for u
          unfolding p using a(4)[OF that] m by (simp add: same)
      qed
    next
      case (Cons d rest)
      then have s': "s' = s\<lparr>ran := ran s @ [d],
                              sd_gor := (sd_gor s)(t := \<lparr>sd_at = SdDeferred rest,
                                 panicking = (panicking (sd_gor s t) \<or> panics d)\<rparr>)\<rparr>"
        using st SdDeferred by (auto simp: sd_step_def sd_pcs_def Let_def)
      have p: "sd_pcs s' = ?l(t := SdDeferred rest)" unfolding s' by (rule ext) (simp add: sd_pcs_def)
      have m: "closed s" "ran s @ d # rest = shutdown_steps" using lt SdDeferred Cons by simp_all
      have others: "?l u = SdLock" if "u < N" "u \<noteq> t" for u
        using out[OF _ that] a(4)[OF that(1)] SdDeferred m by auto
      show ?thesis
      proof (rule sd_invI)
        show "lock_ok in_sd N (sd_mu s') (sd_pcs s')"
          unfolding p using lock_ok_inside[OF a(1) t, of "SdDeferred rest"] SdDeferred by (simp add: s')
        show "ran s' = []" if "\<not> closed s'" using that m by (simp add: s')
        show "ran s' = shutdown_steps \<or> (\<exists>t<N. is_deferred (sd_pcs s' t))" if "closed s'"
          unfolding p using t by auto
        show "sd_local s' (sd_pcs s' u)" if "u < N" for u
          unfolding p using others[OF that] m by (cases "u = t") (simp_all add: s')
      qed
    qed
  next
    case SdUnlock
    then have s': "s' = sd_goto t SdReturned (s\<lparr>sd_mu := False\<rparr>)"
      using st by (auto simp: sd_step_def sd_pcs_def Let_def)
    have p: "sd_pcs s' = ?l(t := SdReturned)" unfolding s' by (rule ext) (simp add: sd_pcs_def)
    have same: "sd_local s' l = sd_local s l" for l
      by (rule sd_local_cong) (simp_all add: s')
    have m: "closed s" "ran s = shutdown_steps" using lt SdUnlock by simp_all
    show ?thesis
    proof (rule sd_invI)
      show "lock_ok in_sd N (sd_mu s') (sd_pcs s')"
        unfolding p using lock_ok_leave[OF a(1) t, of SdReturned] SdUnlock by (simp add: s')
      show "ran s' = []" if "\<not> closed s'" using that m by (simp add: s')
      show "ran s' = shutdown_steps \<or> (\<exists>t<N. is_deferred (sd_pcs s' t))" if "closed s'"
        using m by (simp add: s')
      show "sd_local s' (sd_pcs s' u)" if "u < N" for u
        unfolding p using a(4)[OF that] m by (simp add: same)
    qed
  next
    case SdReturned
    then show ?thesis using st by (simp add: sd_step_def sd_pcs_def)
  qed
qed

lemma sd_inv_exec: "sd_inv N s \<Longrightarrow> sd_inv N (sd_exec panics N sched s)"
proof (induction sched arbitrary: s)
  case Nil
  then show ?case by simp
next
  case (Cons t ts)
  show ?case
  proof (cases "if t < N then sd_step panics t s else None")
    case None
    then show ?thesis using Cons by simp
  next
    case (Some s')
    then have "sd_inv N s'"
      using sd_inv_step[of N s t panics s'] Cons.prems by (simp split: if_splits)
    then show ?thesis using Cons.IH[of s'] Some by simp
  qed
qed

lemma sd_step_todo:
  assumes "sd_step panics t s = Some s'"
  shows "sd_todo (sd_at (sd_gor s' t)) < sd_todo (sd_at (sd_gor s t))
         \<and> (\<forall>u. u \<noteq> t \<longrightarrow> sd_gor s' u = sd_gor s u)"
  using assms
  by (cases "sd_at (sd_gor s t)")
    (auto simp: sd_step_def Let_def defer_all_def shutdown_defers_def split: if_splits list.splits)

lemma sd_step_remaining:
  assumes "sd_step panics t s = Some s'" "t < N"
  shows "sd_remaining N s' < sd_remaining N s"
proof -
  note a = sd_step_todo[OF assms(1)]
  have "(\<Sum>u\<in>{..<N}. sd_todo (sd_at (sd_gor s' u))) < (\<Sum>u\<in>{..<N}. sd_todo (sd_at (sd_gor s u)))"
  proof (rule sum_strict_mono_ex1)
    show "finite {..<N}" by simp
    show "\<forall>u\<in>{..<N}. sd_todo (sd_at (sd_gor s' u)) \<le> sd_todo (sd_at (sd_gor s u))"
      using a by (metis less_or_eq_imp_le)
    show "\<exists>u\<in>{..<N}. sd_todo (sd_at (sd_gor s' u)) < sd_todo (sd_at (sd_gor s u))"
      using a assms(2) by blast
  qed
  then show ?thesis by (simp add: sd_remaining_def)
qed

lemma sd_inv_progress:
  assumes i: "sd_inv N s" and t: "t < N" and nr: "sd_at (sd_gor s t) \<noteq> SdReturned"
  shows "\<exists>u<N. \<exists>s'. sd_step panics u s = Some s'"
proof -
  note a = sd_invD[OF i]
  have free: "\<exists>s'. sd_step panics u s = Some s'" if "in_sd (sd_at (sd_gor s u))" for u
    using that
    by (cases "sd_at (sd_gor s u)") (auto simp: sd_step_def Let_def split: list.splits)
  show ?thesis
  proof (cases "in_sd (sd_at (sd_gor s t))")
    case True
    then show ?thesis using free t by blast
  next
    case False
    then have l: "sd_at (sd_gor s t) = SdLock"
      using nr by (cases "sd_at (sd_gor s t)") simp_all
    show ?thesis
    proof (cases "sd_mu s")
      case True
      then obtain u where "u < N" "in_sd (sd_pcs s u)"
        using a(1) by (auto simp: lock_ok_def)
      then show ?thesis using free[of u] by (auto simp: sd_pcs_def)
    next
      case False
      then have "\<exists>s'. sd_step panics t s = Some s'"
        using l by (simp add: sd_step_def)
      then show ?thesis using t by blast
    qed
  qed
qed

lemma sd_inv_prefix:
  assumes i: "sd_inv N s"
  shows "\<exists>rest. ran s @ rest = shutdown_steps"
proof (cases "closed s")
  case False
  then show ?thesis using sd_invD(2)[OF i] by simp
next
  case True
  then consider "ran s = shutdown_steps" | t where "t < N" "is_deferred (sd_pcs s t)"
    using sd_invD(3)[OF i] by blast
  then show ?thesis
  proof cases
    case 1
    then show ?thesis by simp
  next
    case 2
    then obtain stack where "sd_pcs s t = SdDeferred stack"
      by (cases "sd_pcs s t") simp_all
    then show ?thesis using sd_invD(4)[OF i 2(1)] by auto
  qed
qed

text \<open>
  A goroutine that runs \<^verbatim>\<open>shutdown\<close> alone does what the sequential \<^verbatim>\<open>shutdown\<close> does.
\<close>

lemma ten: "replicate 10 t = [t, t, t, t, t, t, t, t, t, t]"
  by (simp add: eval_nat_numeral)

lemma shutdown_alone:
  assumes "sd_closed ag = closed s" "trace ag = ran s" "\<not> sd_mu s"
    and "sd_at (sd_gor s t) = SdLock" "\<not> panicking (sd_gor s t)" "t < N"
  shows "case shutdown panics ag of (p, ag') \<Rightarrow>
           (let s' = sd_exec panics N (replicate 10 t) s in
              sd_at (sd_gor s' t) = SdReturned \<and> panicking (sd_gor s' t) = p
              \<and> closed s' = sd_closed ag' \<and> ran s' = trace ag' \<and> \<not> sd_mu s')"
  using assms
  by (cases "closed s")
    (simp_all add: ten shutdown_eq shutdown_steps_def sd_step_def sd_goto_def Let_def
      defer_all_def shutdown_defers_def)

text \<open>
  Claim C7. A call of \<^verbatim>\<open>shutdown\<close> on an agent not yet shut down runs the five steps
  in the documented order, whichever of them panic, and a repeated call does nothing.
  When \<open>N\<close> goroutines call \<^verbatim>\<open>shutdown\<close> at the same time, in every state that any
  interleaving reaches the steps run so far are a prefix of the five documented steps,
  so none has run twice or out of order; once a call has returned all five have run;
  and while a call has not returned some goroutine can take a step, each step reducing
  the number of statements left, so that every interleaving ends with all calls
  returned.
\<close>

theorem shutdown_once_in_order:
  "shutdown panics ag =
     (if sd_closed ag then (False, ag)
      else (\<exists>d\<in>set shutdown_steps. panics d,
            ag\<lparr>sd_closed := True, trace := trace ag @ shutdown_steps\<rparr>))
   \<and> shutdown panics (snd (shutdown panics ag)) = (False, snd (shutdown panics ag))
   \<and> (let s = sd_exec panics N sched sd_init in
        (\<exists>rest. ran s @ rest = shutdown_steps)
      \<and> (\<forall>t<N. sd_at (sd_gor s t) = SdReturned \<longrightarrow> ran s = shutdown_steps)
      \<and> ((\<exists>t<N. sd_at (sd_gor s t) \<noteq> SdReturned) \<longrightarrow>
           (\<exists>u<N. \<exists>s'. sd_step panics u s = Some s' \<and> sd_remaining N s' < sd_remaining N s)))"
proof -
  define s where "s = sd_exec panics N sched sd_init"
  have i: "sd_inv N s"
    unfolding s_def by (rule sd_inv_exec) (rule sd_inv_init)
  have r: "ran s = shutdown_steps" if "t < N" "sd_at (sd_gor s t) = SdReturned" for t
    using sd_invD(4)[OF i that(1)] that(2) by (simp add: sd_pcs_def)
  have p: "\<exists>u<N. \<exists>s'. sd_step panics u s = Some s' \<and> sd_remaining N s' < sd_remaining N s"
    if "\<exists>t<N. sd_at (sd_gor s t) \<noteq> SdReturned"
  proof -
    from that obtain t where "t < N" "sd_at (sd_gor s t) \<noteq> SdReturned" by blast
    then obtain u s' where "u < N" "sd_step panics u s = Some s'"
      using sd_inv_progress[OF i] by blast
    then show ?thesis using sd_step_remaining[of panics u s s' N] by blast
  qed
  have c: "(\<exists>rest. ran s @ rest = shutdown_steps)
      \<and> (\<forall>t<N. sd_at (sd_gor s t) = SdReturned \<longrightarrow> ran s = shutdown_steps)
      \<and> ((\<exists>t<N. sd_at (sd_gor s t) \<noteq> SdReturned) \<longrightarrow>
           (\<exists>u<N. \<exists>s'. sd_step panics u s = Some s' \<and> sd_remaining N s' < sd_remaining N s))"
    using sd_inv_prefix[OF i] r p by blast
  have q: "shutdown panics (snd (shutdown panics ag)) = (False, snd (shutdown panics ag))"
    by (simp add: shutdown_eq)
  show ?thesis
    unfolding Let_def s_def[symmetric] by (intro conjI shutdown_eq q c[THEN conjunct1]
        c[THEN conjunct2, THEN conjunct1] c[THEN conjunct2, THEN conjunct2])
qed

text \<open>
  Two concurrent calls, the second blocked on the lock until the first is through;
  closing the input stream panics, and the other four steps run all the same.
\<close>

theorem shutdown_once_in_order_witness:
  "(let s = sd_exec ((=) StdinClose) 2 [0,1,0,0,0,0,0,0,0,0,0,1,1,1] (sd_init :: string sd_shared) in
      sd_at (sd_gor s 0) = SdReturned \<and> sd_at (sd_gor s 1) = SdReturned
      \<and> ran s = [StdinClose, WgWait, Dispatch Shutdown, StdoutClose, CloseDone]
      \<and> panicking (sd_gor s 0) \<and> \<not> panicking (sd_gor s 1))
   \<and> (let s = sd_exec ((=) StdinClose) 2 [0,1,0,0,0,0] (sd_init :: string sd_shared) in
      sd_at (sd_gor s 1) \<noteq> SdReturned \<and> ran s = [StdinClose, WgWait]
      \<and> sd_step ((=) StdinClose) 1 s = None \<and> sd_step ((=) StdinClose) 0 s \<noteq> None)
   \<and> shutdown ((=) StdinClose) json_agent
        = (True, json_agent\<lparr>sd_closed := True,
                   trace := [StdinClose, WgWait, Dispatch Shutdown, StdoutClose, CloseDone]\<rparr>)"
  using shutdown_once_in_order[of "(=) StdinClose" json_agent 2 "[0,1,0,0,0,0,0,0,0,0,0,1,1,1]"]
    shutdown_once_in_order[of "(=) StdinClose" json_agent 2 "[0,1,0,0,0,0]"]
  by (simp add: sd_step_def sd_goto_def sd_init_def Let_def defer_all_def shutdown_defers_def
      shutdown_steps_def json_agent_def)


subsection \<open>The view in a response\<close>

lemma finalize_Inr:
  assumes "State_ptr rs = Some st" "View st = Some v"
  shows "\<exists>out. finalize type_string format editor_config rs = Inr out
           \<and> out_state (out_State out) = (if changed v = 0 then st\<lparr>View := None\<rparr> else st)
           \<and> out_Cookie out = Cookie rs
           \<and> out_Error out = (if Error rs = [] then strings_Join (Errors st) [CHR 0x0A] else Error rs)
           \<and> out_ClientActions (out_State out) = clientActions st
           \<and> out_Config (out_State out) = map_option editor_config (Config st)
           \<and> length (out_Profiles (out_State out)) = length (Profiles st)"
  using assms by (simp add: finalize_def Let_def)

text \<open>
  Claim C8, amended. \<^verbatim>\<open>finalize\<close> returns a response exactly when the state and its
  view are not nil. In that response the view is absent when the change counter of the
  view is zero, and is the view of the state otherwise; the rest of the state is copied
  as it is. What \<^verbatim>\<open>send\<close> writes depends on the response alone, not on what was
  written before.
\<close>

theorem finalize_view:
  "(\<forall>out. finalize type_string format editor_config rs = Inr out \<longrightarrow>
      (\<exists>st v. State_ptr rs = Some st \<and> View st = Some v
         \<and> View (out_state (out_State out)) = (if changed v = 0 then None else Some v)
         \<and> (out_state (out_State out))\<lparr>View := Some v\<rparr> = st))
   \<and> (\<forall>st v. State_ptr rs = Some st \<and> View st = Some v \<longrightarrow>
         (\<exists>out. finalize type_string format editor_config rs = Inr out))
   \<and> send type_string format editor_config encode rs wire =
       (case send type_string format editor_config encode rs [] of
          Inl p \<Rightarrow> Inl p
        | Inr (err, w) \<Rightarrow> Inr (err, wire @ w))"
proof (intro conjI allI impI)
  fix out
  assume a: "finalize type_string format editor_config rs = Inr out"
  then obtain st v where s: "State_ptr rs = Some st" "View st = Some v"
    by (auto simp: finalize_def Let_def split: option.splits)
  from finalize_Inr[OF s, of type_string format editor_config] a
  have "out_state (out_State out) = (if changed v = 0 then st\<lparr>View := None\<rparr> else st)"
    by auto
  then have "View (out_state (out_State out)) = (if changed v = 0 then None else Some v)
         \<and> (out_state (out_State out))\<lparr>View := Some v\<rparr> = st"
    using s(2) by auto
  then show "\<exists>st v. State_ptr rs = Some st \<and> View st = Some v
         \<and> View (out_state (out_State out)) = (if changed v = 0 then None else Some v)
         \<and> (out_state (out_State out))\<lparr>View := Some v\<rparr> = st"
    using s by blast
next
  fix st v
  assume "State_ptr rs = Some st \<and> View st = Some v"
  then show "\<exists>out. finalize type_string format editor_config rs = Inr out"
    using finalize_Inr[of rs st v type_string format editor_config] by blast
next
  show "send type_string format editor_config encode rs wire =
       (case send type_string format editor_config encode rs [] of
          Inl p \<Rightarrow> Inl p
        | Inr (err, w) \<Rightarrow> Inr (err, wire @ w))"
    by (simp add: send_def split: sum.splits option.splits)
qed

text \<open>
  A response whose view has the change counter 0, and one with the counter 3.
\<close>

theorem finalize_view_witness:
  "State_ptr (res_with 0)
     = Some \<lparr>View = Some \<lparr>changed = 0, view_fields = ()\<rparr>, Errors = [''e1'', ''e2''],
             Profiles = [], clientActions = [], Config = None, state_fields = ()\<rparr>
   \<and> (case finalize id id id (res_with 0) of
         Inl p \<Rightarrow> False
       | Inr out \<Rightarrow> View (out_state (out_State out)) = None
                    \<and> out_Error out = ''e1'' @ [CHR 0x0A] @ ''e2'' \<and> out_Cookie out = ''c1'')
   \<and> (case finalize id id id (res_with 3) of
         Inl p \<Rightarrow> False
       | Inr out \<Rightarrow> View (out_state (out_State out)) = Some \<lparr>changed = 3, view_fields = ()\<rparr>)"
  using finalize_view[of id id id "res_with 0"] finalize_view[of id id id "res_with 3"]
  by (simp add: finalize_def res_with_def Let_def)

text \<open>
  Claim C8 as stated fails: a response sent twice in a row carries its view both times,
  the second time unchanged since the previous send. \<^verbatim>\<open>send\<close> neither compares the
  view with the one sent before nor resets the counter.
\<close>

theorem view_sent_again_unchanged:
  "sent_views id id id encode_ok [res_with 1, res_with 1]
     = Some [Some \<lparr>changed = 1, view_fields = ()\<rparr>, Some \<lparr>changed = 1, view_fields = ()\<rparr>]"
  by (simp add: sent_views_def send_def finalize_def res_with_def encode_ok_def Let_def)

end
